theory Spec2Isabelle
  imports Complex_Main "HOL-Library.Log_Nat" "HOL-Library.Word"
begin

section \<open>JavaScript numbers\<close>

text \<open>
  A JavaScript \<open>number\<close> is an IEEE 754 binary64 value. A finite one is modelled by the
  rational it denotes, the two infinities and NaN by constructors of their own. The two
  zeros are identified; where the sign of a zero divisor matters the model follows \<open>+0\<close>.
  Every arithmetic operator computes the exact rational result and rounds it once, to the
  nearest double, ties to the even significand (\<open>to_double\<close>).
\<close>

datatype number = Num rat | PosInf | NegInf | NaN

text \<open>Nearest integer, ties to even.\<close>

definition rne :: "rat \<Rightarrow> int" where
  "rne q = (let f = \<lfloor>q\<rfloor>; d = q - of_int f in
     if d < 1 / 2 then f else if 1 / 2 < d then f + 1 else if even f then f else f + 1)"

text \<open>The binary exponent \<open>\<lfloor>log\<^sub>2 x\<rfloor>\<close> of a positive rational.\<close>

definition expo :: "rat \<Rightarrow> int" where
  "expo x = (if 1 \<le> x then bitlen \<lfloor>x\<rfloor> - 1 else - bitlen (\<lceil>1 / x\<rceil> - 1))"

text \<open>
  The exponent of the unit in the last place: 53 significant bits, and the fixed spacing
  \<open>2\<^sup>-\<^sup>1\<^sup>0\<^sup>7\<^sup>4\<close> of the subnormal range.
\<close>

definition ulp_exp :: "rat \<Rightarrow> int" where
  "ulp_exp x = max (expo \<bar>x\<bar> - 52) (- 1074)"

definition fl :: "rat \<Rightarrow> rat" where
  "fl x = (if x = 0 then 0 else of_int (rne (x / 2 powi ulp_exp x)) * 2 powi ulp_exp x)"

definition to_double :: "rat \<Rightarrow> number" where
  "to_double x = (let y = fl x in
     if 2 ^ 1024 \<le> y then PosInf else if y \<le> - (2 ^ 1024) then NegInf else Num y)"

fun js_neg :: "number \<Rightarrow> number" where
  "js_neg (Num a) = Num (- a)"
| "js_neg PosInf = NegInf"
| "js_neg NegInf = PosInf"
| "js_neg NaN = NaN"

text \<open>The operators \<open>-\<close>, \<open>*\<close>, \<open>/\<close> and \<open>%\<close>.\<close>

fun js_sub :: "number \<Rightarrow> number \<Rightarrow> number" where
  "js_sub (Num a) (Num b) = to_double (a - b)"
| "js_sub NaN y = NaN"
| "js_sub x NaN = NaN"
| "js_sub (Num a) y = js_neg y"
| "js_sub x (Num b) = x"
| "js_sub x y = (if x = y then NaN else x)"

fun js_mul :: "number \<Rightarrow> number \<Rightarrow> number" where
  "js_mul (Num a) (Num b) = to_double (a * b)"
| "js_mul NaN y = NaN"
| "js_mul x NaN = NaN"
| "js_mul (Num a) y = (if a = 0 then NaN else if 0 < a then y else js_neg y)"
| "js_mul x (Num b) = (if b = 0 then NaN else if 0 < b then x else js_neg x)"
| "js_mul x y = (if x = y then PosInf else NegInf)"

fun js_div :: "number \<Rightarrow> number \<Rightarrow> number" where
  "js_div (Num a) (Num b) =
     (if b = 0 then (if a = 0 then NaN else if 0 < a then PosInf else NegInf)
      else to_double (a / b))"
| "js_div NaN y = NaN"
| "js_div x NaN = NaN"
| "js_div (Num a) y = Num 0"
| "js_div x (Num b) = (if 0 \<le> b then x else js_neg x)"
| "js_div x y = NaN"

definition trunc :: "rat \<Rightarrow> int" where
  "trunc q = (if 0 \<le> q then \<lfloor>q\<rfloor> else \<lceil>q\<rceil>)"

fun js_mod :: "number \<Rightarrow> number \<Rightarrow> number" where
  "js_mod (Num a) (Num b) = (if b = 0 then NaN else Num (a - b * of_int (trunc (a / b))))"
| "js_mod NaN y = NaN"
| "js_mod x NaN = NaN"
| "js_mod (Num a) y = Num a"
| "js_mod x y = NaN"

text \<open>The comparison \<open><\<close>: false as soon as one side is NaN.\<close>

fun js_lt :: "number \<Rightarrow> number \<Rightarrow> bool" where
  "js_lt (Num a) (Num b) = (a < b)"
| "js_lt NaN y = False"
| "js_lt x NaN = False"
| "js_lt NegInf y = (y \<noteq> NegInf)"
| "js_lt x PosInf = (x \<noteq> PosInf)"
| "js_lt x y = False"

text \<open>\<open>Math.min\<close>, \<open>Math.floor\<close>, \<open>Math.round\<close> (halves go up) and \<open>Math.abs\<close> are exact.\<close>

fun Math_min :: "number \<Rightarrow> number \<Rightarrow> number" where
  "Math_min (Num a) (Num b) = Num (min a b)"
| "Math_min NaN y = NaN"
| "Math_min x NaN = NaN"
| "Math_min NegInf y = NegInf"
| "Math_min x NegInf = NegInf"
| "Math_min PosInf y = y"
| "Math_min x PosInf = x"

fun Math_floor :: "number \<Rightarrow> number" where
  "Math_floor (Num a) = Num (of_int \<lfloor>a\<rfloor>)"
| "Math_floor x = x"

fun Math_round :: "number \<Rightarrow> number" where
  "Math_round (Num a) = Num (of_int \<lfloor>a + 1 / 2\<rfloor>)"
| "Math_round x = x"

fun Math_abs :: "number \<Rightarrow> number" where
  "Math_abs (Num a) = Num \<bar>a\<bar>"
| "Math_abs NegInf = PosInf"
| "Math_abs x = x"

text \<open>\<open>Number.EPSILON\<close> is \<open>2\<^sup>-\<^sup>5\<^sup>2\<close>, the gap between 1 and the next double.\<close>

definition Number_EPSILON :: number where
  "Number_EPSILON = Num (1 / 2 ^ 52)"

text \<open>
  \<open>parseInt(s, 16)\<close>: the value of the longest prefix of hexadecimal digits, rounded to a
  double, and NaN when \<open>s\<close> does not start with a digit. The optional white space, sign
  and \<open>0x\<close> that \<open>parseInt\<close> skips are left out: its argument here is always a slice of
  a hexadecimal digest.
\<close>

definition hex_digit_value :: "char \<Rightarrow> nat option" where
  "hex_digit_value c = (let n = (of_char c :: nat) in
     if 48 \<le> n \<and> n \<le> 57 then Some (n - 48)
     else if 97 \<le> n \<and> n \<le> 102 then Some (n - 87)
     else if 65 \<le> n \<and> n \<le> 70 then Some (n - 55)
     else None)"

fun hex_digits_prefix :: "string \<Rightarrow> nat list" where
  "hex_digits_prefix [] = []"
| "hex_digits_prefix (c # cs) =
     (case hex_digit_value c of None \<Rightarrow> [] | Some d \<Rightarrow> d # hex_digits_prefix cs)"

definition base16 :: "nat list \<Rightarrow> nat" where
  "base16 ds = foldl (\<lambda>acc d. 16 * acc + d) 0 ds"

definition parseInt16 :: "string \<Rightarrow> number" where
  "parseInt16 s = (case hex_digits_prefix s of [] \<Rightarrow> NaN | d # ds \<Rightarrow> to_double (of_nat (base16 (d # ds))))"

section \<open>Strings\<close>

text \<open>The decimal numeral of a non-negative integer, and the number of its digits.\<close>

definition digit_char :: "nat \<Rightarrow> char" where
  "digit_char d = ''0123456789'' ! d"

function decimal_string :: "int \<Rightarrow> string" where
  "decimal_string n =
     (if n < 10 then [digit_char (nat n)]
      else decimal_string (n div 10) @ [digit_char (nat (n mod 10))])"
  by pat_completeness auto
termination
  by (relation "measure nat") auto

declare decimal_string.simps [simp del]

function digits_count :: "int \<Rightarrow> nat" where
  "digits_count n = (if n < 10 then 1 else Suc (digits_count (n div 10)))"
  by pat_completeness auto
termination
  by (relation "measure nat") auto

declare digits_count.simps [simp del]

text \<open>
  \<open>Number::toString\<close> in radix 10, which a template literal applies to a number. For a
  positive \<open>x\<close> it takes integers \<open>n\<close>, \<open>k\<close>, \<open>s\<close> with \<open>10\<^sup>k\<^sup>-\<^sup>1 \<le> s < 10\<^sup>k\<close>, such that
  \<open>s * 10\<^sup>n\<^sup>-\<^sup>k\<close> rounds to \<open>x\<close> and \<open>k\<close> is as small as possible, among several \<open>s\<close> the one
  closest to \<open>x\<close>, the even one of two equally close. It prints plain digits when
  \<open>-5 \<le> n \<le> 21\<close> and the exponent form otherwise.

  \<open>digits10 x\<close> is the \<open>n\<close> with \<open>10\<^sup>n\<^sup>-\<^sup>1 \<le> x < 10\<^sup>n\<close>. \<open>candidate x n k\<close> tries the two
  \<open>k\<close>-digit significands next to \<open>x\<close>; the upper one may be \<open>10\<^sup>k\<close>, which is the significand
  \<open>10\<^sup>k\<^sup>-\<^sup>1\<close> with \<open>n + 1\<close>. \<open>shortest\<close> tries \<open>k = 1, 2, ...\<close>; seventeen digits identify
  every double.
\<close>

definition digits10 :: "rat \<Rightarrow> int" where
  "digits10 x =
     (if 1 \<le> x then int (digits_count \<lfloor>x\<rfloor>)
      else 1 - int (digits_count (\<lceil>1 / x\<rceil> - 1)))"

definition candidate :: "rat \<Rightarrow> int \<Rightarrow> nat \<Rightarrow> int option" where
  "candidate x n k =
     (let scale = 10 powi (n - int k);
          lo = \<lfloor>x / scale\<rfloor>;
          hi = lo + 1;
          dlo = x - of_int lo * scale;
          dhi = of_int hi * scale - x
      in if fl (of_int lo * scale) = x
         then (if fl (of_int hi * scale) = x
               then (if dlo < dhi then Some lo
                     else if dhi < dlo then Some hi
                     else if even lo then Some lo else Some hi)
               else Some lo)
         else if fl (of_int hi * scale) = x then Some hi
         else None)"

fun shortest :: "rat \<Rightarrow> int \<Rightarrow> nat \<Rightarrow> nat \<Rightarrow> nat \<times> int" where
  "shortest x n k 0 = (k, \<lfloor>x / 10 powi (n - int k)\<rfloor>)"
| "shortest x n k (Suc fuel) =
     (case candidate x n k of
        Some s \<Rightarrow> (k, s)
      | None \<Rightarrow> shortest x n (Suc k) fuel)"

definition positive_to_string :: "rat \<Rightarrow> string" where
  "positive_to_string x =
     (let n0 = digits10 x;
          (k, s0) = shortest x n0 1 17;
          (s, n) = (if s0 = 10 ^ k then (10 ^ (k - 1), n0 + 1) else (s0, n0));
          ds = decimal_string s
      in if - 5 \<le> n \<and> n \<le> 21
         then (if int k \<le> n then ds @ replicate (nat (n - int k)) (CHR ''0'')
               else if 0 < n then take (nat n) ds @ ''.'' @ drop (nat n) ds
               else ''0.'' @ replicate (nat (- n)) (CHR ''0'') @ ds)
         else (let e = n - 1;
                   es = (if 0 \<le> e then ''+'' else ''-'') @ decimal_string \<bar>e\<bar>
               in if k = 1 then ds @ ''e'' @ es
                  else take 1 ds @ ''.'' @ drop 1 ds @ ''e'' @ es))"

fun number_to_string :: "number \<Rightarrow> string" where
  "number_to_string NaN = ''NaN''"
| "number_to_string PosInf = ''Infinity''"
| "number_to_string NegInf = ''-Infinity''"
| "number_to_string (Num x) =
     (if x = 0 then ''0''
      else if x < 0 then ''-'' @ positive_to_string (- x)
      else positive_to_string x)"

text \<open>\<open>Number.isInteger\<close>.\<close>

fun Number_isInteger :: "number \<Rightarrow> bool" where
  "Number_isInteger (Num x) = (x = of_int \<lfloor>x\<rfloor>)"
| "Number_isInteger v = False"

text \<open>
  \<open>toLowerCase\<close> on the letters A to Z. A character outside ASCII is left as it is;
  JavaScript maps none of them to a hexadecimal digit either.
\<close>

definition lower_char :: "char \<Rightarrow> char" where
  "lower_char c = (let n = (of_char c :: nat) in if 65 \<le> n \<and> n \<le> 90 then char_of (n + 32) else c)"

definition toLowerCase :: "string \<Rightarrow> string" where
  "toLowerCase s = map lower_char s"

section \<open>hashUtils\<close>

text \<open>
  \<open>createHash('sha256').update(input).digest('hex')\<close>. The hash function of the crypto
  library is a parameter \<open>H\<close>, from the input string to the 256-bit digest; \<open>digest_hex\<close>
  is the library's lower-case hexadecimal encoding of the 32 digest bytes.
\<close>

definition hex_char :: "nat \<Rightarrow> char" where
  "hex_char d = ''0123456789abcdef'' ! d"

definition digest_hex :: "256 word \<Rightarrow> string" where
  "digest_hex w = map (\<lambda>i. hex_char (unat w div 16 ^ (63 - i) mod 16)) [0..<64]"

definition sha256 :: "(string \<Rightarrow> 256 word) \<Rightarrow> string \<Rightarrow> string" where
  "sha256 H input = digest_hex (H input)"

definition verifyServerSeedHash :: "(string \<Rightarrow> 256 word) \<Rightarrow> string \<Rightarrow> string \<Rightarrow> bool" where
  "verifyServerSeedHash H serverSeed serverSeedHash =
     (let computedHash = sha256 H serverSeed
      in toLowerCase computedHash = toLowerCase serverSeedHash)"

definition createAuditDigest :: "(string \<Rightarrow> 256 word) \<Rightarrow> string \<Rightarrow> string" where
  "createAuditDigest H serverSeed = take 12 (sha256 H serverSeed)"

section \<open>provablyFair\<close>

record VerificationResult =
  computedResult :: number
  computationHex :: string
  serverSeedHash :: string

definition computeHashInput :: "string \<Rightarrow> string \<Rightarrow> number \<Rightarrow> string" where
  "computeHashInput serverSeed clientSeed nonce =
     serverSeed @ '':'' @ clientSeed @ '':'' @ number_to_string nonce"

definition verifyDice ::
  "(string \<Rightarrow> 256 word) \<Rightarrow> string \<Rightarrow> string \<Rightarrow> number \<Rightarrow> VerificationResult" where
  "verifyDice H serverSeed clientSeed nonce =
     (let hashInput = computeHashInput serverSeed clientSeed nonce;
          hash = sha256 H hashInput;
          computationHex = hash;
          hexPrefix = take 8 hash;
          x = parseInt16 hexPrefix;
          result = js_div (js_mod x (Num 10000)) (Num 100);
          serverSeedHash = sha256 H serverSeed
      in \<lparr> computedResult = js_div (Math_round (js_mul result (Num 100))) (Num 100),
           computationHex = computationHex,
           serverSeedHash = serverSeedHash \<rparr>)"

text \<open>
  The cap \<open>maxMult\<close> is an argument of the model; a caller that leaves it out gets the
  default 10000 of the source.
\<close>

definition TWO_TO_52 :: number where
  "TWO_TO_52 = Num 4503599627370496"

definition verifyCrash ::
  "(string \<Rightarrow> 256 word) \<Rightarrow> string \<Rightarrow> string \<Rightarrow> number \<Rightarrow> number \<Rightarrow> VerificationResult" where
  "verifyCrash H serverSeed clientSeed nonce maxMult =
     (let hashInput = computeHashInput serverSeed clientSeed nonce;
          hash = sha256 H hashInput;
          computationHex = hash;
          hexPrefix = take 13 hash;
          x = parseInt16 hexPrefix;
          r = js_div x TWO_TO_52;
          r = Math_min r (js_sub (Num 1) (to_double (1 / 10 ^ 12)));
          mult = js_div (Math_floor (js_mul (js_div (Num 1) (js_sub (Num 1) r)) (Num 100))) (Num 100);
          mult = Math_min mult maxMult;
          serverSeedHash = sha256 H serverSeed
      in \<lparr> computedResult = js_div (Math_round (js_mul mult (Num 100))) (Num 100),
           computationHex = computationHex,
           serverSeedHash = serverSeedHash \<rparr>)"

text \<open>
  \<open>verifyGame\<close> returns its three values as a record, or the message of the error it
  throws. The optional claimed hash is an \<open>option\<close>; the test \<open>if (serverSeedHash)\<close> is
  JavaScript truthiness, false for \<open>undefined\<close> and for the empty string
  (the parameter is called \<open>serverSeedHashOpt\<close> here, the record field having its name).
\<close>

record GameOutcome =
  result :: VerificationResult
  hashVerified :: bool
  hashMismatch :: bool

definition truthy :: "string option \<Rightarrow> bool" where
  "truthy s = (case s of None \<Rightarrow> False | Some t \<Rightarrow> t \<noteq> [])"

definition verifyGame ::
  "(string \<Rightarrow> 256 word) \<Rightarrow> string \<Rightarrow> string \<Rightarrow> string option \<Rightarrow> string \<Rightarrow> number \<Rightarrow> number
     \<Rightarrow> string + GameOutcome" where
  "verifyGame H game serverSeed serverSeedHashOpt clientSeed nonce maxMult =
     (let hashVerified = (if truthy serverSeedHashOpt
                          then verifyServerSeedHash H serverSeed (the serverSeedHashOpt) else False);
          hashMismatch = (if truthy serverSeedHashOpt then \<not> hashVerified else False)
      in if game = ''dice''
         then Inr \<lparr> result = verifyDice H serverSeed clientSeed nonce,
                    hashVerified = hashVerified, hashMismatch = hashMismatch \<rparr>
         else if game = ''crash''
         then Inr \<lparr> result = verifyCrash H serverSeed clientSeed nonce maxMult,
                    hashVerified = hashVerified, hashMismatch = hashMismatch \<rparr>
         else Inl (''Unknown game type: '' @ game))"

definition compareResults :: "number \<Rightarrow> number \<Rightarrow> bool \<Rightarrow> bool" where
  "compareResults computed expected strict =
     (if strict
      then js_lt (Math_abs (js_sub computed expected)) (js_mul Number_EPSILON (Num 10))
      else js_lt (Math_abs (js_sub computed expected)) (to_double (1 / 100)))"

text \<open>
  The multiplier as the specification words it, for the 52-bit integer \<open>x\<close>:
  \<open>r = x / 2\<^sup>5\<^sup>2\<close>, \<open>r = min(r, 1 - 1e-12)\<close>, \<open>floor((1 / (1 - r)) * 100) / 100\<close>, every
  operation in double arithmetic.
\<close>

definition crash_multiplier :: "nat \<Rightarrow> rat" where
  "crash_multiplier x =
     (let r = fl (of_nat x / 2 ^ 52);
          r = min r (fl (1 - fl (1 / 10 ^ 12)))
      in fl (of_int \<lfloor>fl (fl (1 / fl (1 - r)) * 100)\<rfloor> / 100))"

text \<open>
  Rounding to 2 decimal places as the specification means it: of a finite value, the
  nearest multiple of \<open>1/100\<close> in exact arithmetic, a half going up, and of that the
  nearest double.
\<close>

fun nearest_2dp :: "number \<Rightarrow> number" where
  "nearest_2dp (Num v) = to_double (of_int \<lfloor>v * 100 + 1 / 2\<rfloor> / 100)"
| "nearest_2dp v = v"

text \<open>
  Equality up to letter case as the specification means it: two characters agree when they
  are equal or one is a capital letter A to Z and the other the same letter in lower case;
  two strings agree when they have the same length and agree character by character.
  \<open>toUpperCase\<close> is its counterpart on the letters a to z.
\<close>

definition capital_of :: "char \<Rightarrow> char \<Rightarrow> bool" where
  "capital_of a b = (65 \<le> (of_char a :: nat) \<and> (of_char a :: nat) \<le> 90 \<and>
     (of_char b :: nat) = of_char a + 32)"

definition same_char_up_to_case :: "char \<Rightarrow> char \<Rightarrow> bool" where
  "same_char_up_to_case a b = (a = b \<or> capital_of a b \<or> capital_of b a)"

definition equal_up_to_case :: "string \<Rightarrow> string \<Rightarrow> bool" where
  "equal_up_to_case s t = list_all2 same_char_up_to_case s t"

definition upper_char :: "char \<Rightarrow> char" where
  "upper_char c = (let n = (of_char c :: nat) in if 97 \<le> n \<and> n \<le> 122 then char_of (n - 32) else c)"

definition toUpperCase :: "string \<Rightarrow> string" where
  "toUpperCase s = map upper_char s"

section \<open>The verify endpoint\<close>

text \<open>
  The request body with the types of \<open>VerifyRequest\<close>; an optional field is an \<open>option\<close>.
  The \<open>typeof\<close> tests of \<open>validateRequest\<close> hold by typing.
\<close>

record VerifyRequest =
  game :: string
  server_seed :: string
  server_seed_hash :: "string option"
  client_seed :: string
  nonce :: number
  server_provided_hash :: "bool option"
  expected_result :: "number option"
  expect_strict :: "bool option"

datatype validation = Valid | Invalid string

definition validateRequest :: "VerifyRequest \<Rightarrow> validation" where
  \<open>validateRequest body =
     (if game body = [] \<or> (game body \<noteq> ''dice'' \<and> game body \<noteq> ''crash'')
      then Invalid ''Invalid game type. Must be "dice" or "crash"''
      else if server_seed body = []
      then Invalid ''server_seed is required and must be a string''
      else if length (server_seed body) > 1000
      then Invalid ''server_seed is too long (max 1000 characters)''
      else if client_seed body = []
      then Invalid ''client_seed is required and must be a string''
      else if length (client_seed body) > 1000
      then Invalid ''client_seed is too long (max 1000 characters)''
      else if js_lt (nonce body) (Num 1) \<or> Number_isInteger (nonce body) = False
      then Invalid ''nonce must be a positive integer''
      else if (case expected_result body of None \<Rightarrow> False | Some e \<Rightarrow> js_lt e (Num 0))
      then Invalid ''expected_result must be a non-negative number''
      else Valid)\<close>

datatype verdict = PASS | FAIL

text \<open>
  A note is kept by its kind and the numbers it prints, the list of notes in the order of
  the pushes; the response joins their texts with \<open>'; '\<close>.
\<close>

datatype note_text =
  HashFailed | HashVerified | NoHashProvided
| ResultMatches number | ResultMismatch number number | NoExpectedResult

record VerifyResponse =
  ok :: bool
  response_game :: string
  computed_result :: number
  verdict :: verdict
  used_client_seed :: string
  used_nonce :: number
  used_server_seed_hash :: string
  computation_hex :: string
  response_notes :: "note_text list"

datatype http_response = Status200 VerifyResponse | Status400 string | Status500 string

text \<open>
  \<open>postVerify\<close>, with the multiplier cap read from the environment as the parameter
  \<open>maxMult\<close>. An error thrown by \<open>verifyGame\<close> is caught and answered with status 500.
  The audit digest that the handler computes goes into no field of the response.
\<close>

definition postVerify :: "(string \<Rightarrow> 256 word) \<Rightarrow> number \<Rightarrow> VerifyRequest \<Rightarrow> http_response" where
  "postVerify H maxMult body =
     (case validateRequest body of
        Invalid e \<Rightarrow> Status400 e
      | Valid \<Rightarrow>
         (case verifyGame H (game body) (server_seed body) (server_seed_hash body)
                 (client_seed body) (nonce body) maxMult of
            Inl errorMessage \<Rightarrow> Status500 (''Verification failed: '' @ errorMessage)
          | Inr out \<Rightarrow>
             (let notes1 =
                    (if truthy (server_seed_hash body)
                     then (if hashMismatch out then [HashFailed]
                           else if hashVerified out then [HashVerified] else [])
                     else [NoHashProvided]);
                  verdict1 = (if hashMismatch out then FAIL else PASS);
                  matches =
                    (case expected_result body of
                       None \<Rightarrow> True
                     | Some e \<Rightarrow>
                         compareResults (computedResult (result out)) e
                           (case expect_strict body of None \<Rightarrow> False | Some b \<Rightarrow> b));
                  verdict2 = (if matches then verdict1 else FAIL);
                  notes2 =
                    (case expected_result body of
                       None \<Rightarrow> notes1 @ [NoExpectedResult]
                     | Some e \<Rightarrow>
                         if matches then notes1 @ [ResultMatches e]
                         else notes1 @ [ResultMismatch (computedResult (result out)) e])
              in Status200 \<lparr> ok = True,
                   response_game = game body,
                   computed_result = computedResult (result out),
                   verdict = verdict2,
                   used_client_seed = client_seed body,
                   used_nonce = nonce body,
                   used_server_seed_hash = serverSeedHash (result out),
                   computation_hex = computationHex (result out),
                   response_notes = notes2 \<rparr>)))"

section \<open>A hash function for the test vectors\<close>

text \<open>
  \<open>sha256_vectors\<close> agrees with SHA-256 on the four inputs that the vectors of the test
  suite hash (\<open>test:test:1\<close>, \<open>test\<close>, \<open>seed123:client456:1\<close>, \<open>seed123\<close>) and on the
  two spellings \<open>a:b:1e+21\<close> and \<open>a:b:1000000000000000000000\<close>; the properties below hold
  for every hash function and are instantiated with this one.
\<close>

definition sha256_vectors :: "string \<Rightarrow> 256 word" where
  "sha256_vectors input =
     (if input = ''test:test:1''
      then 0xa3b8ef9da90794aa6e9da679fc78e910ecfefad1d5eea399f24d3677bde9d4f1
      else if input = ''test''
      then 0x9f86d081884c7d659a2feaa0c55ad015a3bf4f1b2b0b822cd15d6c15b0f00a08
      else if input = ''seed123:client456:1''
      then 0xfc585ffee5e1bfeb0f0e6b22126e8f209974eeb0939e8ccfb47d96a060160cc5
      else if input = ''seed123''
      then 0x363c4b5df77dfec7bba98f7b8c62c6dbbf66764e834c8e21a209fe699b6bec91
      else if input = ''a:b:1e+21''
      then 0x088974145baca2f904136e16212ad40fe4c78c45b5bbe07cb67f48b0a2243931
      else if input = ''a:b:1000000000000000000000''
      then 0xbbbcc9a80bbac53c4c403b0272f615fc50ee8494b4abf947cfaa1292ab812f6c
      else 0)"

section \<open>Rounding to the nearest double\<close>

lemma rne_cases: "rne q = \<lfloor>q\<rfloor> \<or> rne q = \<lfloor>q\<rfloor> + 1"
  by (simp add: rne_def Let_def)

lemma rne_of_int: "rne (of_int n) = n"
  by (simp add: rne_def Let_def)

lemma rne_half: "\<bar>of_int (rne q) - q\<bar> \<le> 1 / 2"
proof -
  have "of_int \<lfloor>q\<rfloor> \<le> q" "q < of_int \<lfloor>q\<rfloor> + 1" by linarith+
  then show ?thesis
    unfolding rne_def Let_def by (auto split: if_splits)
qed

lemma rne_mono: "a \<le> b \<Longrightarrow> rne a \<le> rne b"
proof -
  assume ab: "a \<le> b"
  have fl: "\<lfloor>a\<rfloor> \<le> \<lfloor>b\<rfloor>" using ab by (rule floor_mono)
  show ?thesis
  proof (cases "\<lfloor>a\<rfloor> = \<lfloor>b\<rfloor>")
    case True
    then show ?thesis using ab unfolding rne_def Let_def by (auto split: if_splits)
  next
    case False
    then have "\<lfloor>a\<rfloor> + 1 \<le> \<lfloor>b\<rfloor>" using fl by linarith
    moreover have "rne a \<le> \<lfloor>a\<rfloor> + 1" using rne_cases[of a] by linarith
    moreover have "\<lfloor>b\<rfloor> \<le> rne b" using rne_cases[of b] by linarith
    ultimately show ?thesis by linarith
  qed
qed

lemma pow2_nonneg: "0 \<le> k \<Longrightarrow> (2::rat) powi k = of_int (2 ^ nat k)"
  by (simp add: power_int_def)

lemma pow2_neg: "0 \<le> k \<Longrightarrow> (2::rat) powi (- k) = 1 / of_int (2 ^ nat k)"
  by (cases "k = 0") (simp_all add: power_int_def field_simps)

lemma expo_lower:
  assumes "0 < x"
  shows "2 powi expo x \<le> x"
proof (cases "1 \<le> x")
  case True
  then have n: "0 < \<lfloor>x\<rfloor>" by linarith
  have "0 \<le> bitlen \<lfloor>x\<rfloor> - 1" using n by (simp add: bitlen_alt_def)
  then have "(2::rat) powi (bitlen \<lfloor>x\<rfloor> - 1) = of_int (2 ^ nat (bitlen \<lfloor>x\<rfloor> - 1))"
    by (rule pow2_nonneg)
  also have "\<dots> \<le> of_int \<lfloor>x\<rfloor>" using bitlen_bounds[OF n] by (simp only: of_int_le_iff)
  also have "\<dots> \<le> x" by linarith
  finally show ?thesis using True by (simp add: expo_def)
next
  case False
  define y where "y = 1 / x"
  define n where "n = \<lceil>y\<rceil>"
  define k where "k = bitlen (n - 1)"
  have y1: "1 < y" using False assms by (simp add: y_def)
  have n1: "0 < n - 1" using y1 unfolding n_def by linarith
  have k0: "0 \<le> k" unfolding k_def by (rule bitlen_nonneg)
  have "n - 1 < 2 ^ nat k" using bitlen_bounds[OF n1] by (simp add: k_def)
  then have "n \<le> 2 ^ nat k" by linarith
  then have "(of_int n :: rat) \<le> of_int (2 ^ nat k)" by (simp only: of_int_le_iff)
  moreover have "y \<le> of_int n" unfolding n_def by linarith
  ultimately have yk: "y \<le> of_int (2 ^ nat k)" by linarith
  have p: "(0::rat) < of_int (2 ^ nat k)" by simp
  have "1 / of_int (2 ^ nat k) \<le> x"
    using yk assms p unfolding y_def by (simp add: field_simps)
  then have "2 powi (- k) \<le> x" using pow2_neg[OF k0] by simp
  then show ?thesis using False by (simp add: expo_def k_def n_def y_def)
qed

lemma expo_upper:
  assumes "0 < x"
  shows "x < 2 powi (expo x + 1)"
proof (cases "1 \<le> x")
  case True
  then have n: "0 < \<lfloor>x\<rfloor>" by linarith
  have b0: "0 \<le> bitlen \<lfloor>x\<rfloor>" by (rule bitlen_nonneg)
  have "\<lfloor>x\<rfloor> + 1 \<le> 2 ^ nat (bitlen \<lfloor>x\<rfloor>)" using bitlen_bounds[OF n] by linarith
  then have "(of_int (\<lfloor>x\<rfloor> + 1) :: rat) \<le> of_int (2 ^ nat (bitlen \<lfloor>x\<rfloor>))"
    by (simp only: of_int_le_iff)
  moreover have "x < of_int (\<lfloor>x\<rfloor> + 1)" by linarith
  ultimately have "x < of_int (2 ^ nat (bitlen \<lfloor>x\<rfloor>))" by linarith
  then have "x < 2 powi (bitlen \<lfloor>x\<rfloor>)" using pow2_nonneg[OF b0] by simp
  then show ?thesis using True by (simp add: expo_def)
next
  case False
  define y where "y = 1 / x"
  define n where "n = \<lceil>y\<rceil>"
  define k where "k = bitlen (n - 1)"
  have y1: "1 < y" using False assms by (simp add: y_def)
  have n1: "0 < n - 1" using y1 unfolding n_def by linarith
  have k1: "0 \<le> k - 1" using n1 unfolding k_def by (simp add: bitlen_alt_def)
  have "2 ^ nat (k - 1) \<le> n - 1" using bitlen_bounds[OF n1] by (simp add: k_def)
  then have "(of_int (2 ^ nat (k - 1)) :: rat) \<le> of_int (n - 1)" by (simp only: of_int_le_iff)
  moreover have "of_int (n - 1) < y" unfolding n_def by linarith
  ultimately have yk: "of_int (2 ^ nat (k - 1)) < y" by linarith
  have p: "(0::rat) < of_int (2 ^ nat (k - 1))" by simp
  have "x < 1 / of_int (2 ^ nat (k - 1))"
    using yk assms p unfolding y_def by (simp add: field_simps)
  then have "x < 2 powi (- (k - 1))" using pow2_neg[OF k1] by simp
  then show ?thesis using False by (simp add: expo_def k_def n_def y_def)
qed

lemma pow2_pos: "(0::rat) < 2 powi k"
  by (simp add: power_int_def)

lemma pow2_mono: "a \<le> b \<Longrightarrow> (2::rat) powi a \<le> 2 powi b"
  by (rule power_int_increasing) simp_all

lemma pow2_strict_mono: "a < b \<Longrightarrow> (2::rat) powi a < 2 powi b"
  by (rule power_int_strict_increasing) simp_all

lemma expo_unique:
  assumes "0 < x" "2 powi e \<le> x" "x < 2 powi (e + 1)"
  shows "expo x = e"
proof (rule antisym)
  show "expo x \<le> e"
  proof (rule ccontr)
    assume "\<not> expo x \<le> e"
    then have "e + 1 \<le> expo x" by simp
    then have "(2::rat) powi (e + 1) \<le> 2 powi expo x" by (rule pow2_mono)
    with expo_lower[OF assms(1)] assms(3) show False by linarith
  qed
  show "e \<le> expo x"
  proof (rule ccontr)
    assume "\<not> e \<le> expo x"
    then have "expo x + 1 \<le> e" by simp
    then have "(2::rat) powi (expo x + 1) \<le> 2 powi e" by (rule pow2_mono)
    with expo_upper[OF assms(1)] assms(2) show False by linarith
  qed
qed

lemma expo_mono:
  assumes "0 < x" "x \<le> y"
  shows "expo x \<le> expo y"
proof (rule ccontr)
  assume "\<not> expo x \<le> expo y"
  then have "expo y + 1 \<le> expo x" by simp
  then have "(2::rat) powi (expo y + 1) \<le> 2 powi expo x" by (rule pow2_mono)
  moreover have "0 < y" using assms by linarith
  ultimately show False using expo_lower[OF assms(1)] expo_upper[of y] assms(2) by linarith
qed

lemma pow2_split: "u \<le> e \<Longrightarrow> (2::rat) powi e = of_int (2 ^ nat (e - u)) * 2 powi u"
proof -
  assume "u \<le> e"
  then have "0 \<le> e - u" by simp
  then have "(2::rat) powi (e - u) = of_int (2 ^ nat (e - u))" by (rule pow2_nonneg)
  moreover have "(2::rat) powi ((e - u) + u) = 2 powi (e - u) * 2 powi u"
    by (rule power_int_add) simp
  ultimately show ?thesis by simp
qed

lemma fl_grid_le:
  assumes "x \<le> of_int k * 2 powi ulp_exp x"
  shows "fl x \<le> of_int k * 2 powi ulp_exp x"
proof (cases "x = 0")
  case True
  then show ?thesis using assms by (simp add: fl_def)
next
  case False
  have p: "(0::rat) < 2 powi ulp_exp x" by (rule pow2_pos)
  have "x / 2 powi ulp_exp x \<le> of_int k" using assms p by (simp add: field_simps)
  then have "rne (x / 2 powi ulp_exp x) \<le> rne (of_int k)" by (rule rne_mono)
  then have "rne (x / 2 powi ulp_exp x) \<le> k" by (simp add: rne_of_int)
  then have "(of_int (rne (x / 2 powi ulp_exp x)) :: rat) \<le> of_int k" by (simp only: of_int_le_iff)
  then show ?thesis using False p by (simp add: fl_def)
qed

lemma fl_grid_ge:
  assumes "of_int k * 2 powi ulp_exp x \<le> x"
  shows "of_int k * 2 powi ulp_exp x \<le> fl x"
proof (cases "x = 0")
  case True
  then show ?thesis using assms by (simp add: fl_def)
next
  case False
  have p: "(0::rat) < 2 powi ulp_exp x" by (rule pow2_pos)
  have "of_int k \<le> x / 2 powi ulp_exp x" using assms p by (simp add: field_simps)
  then have "rne (of_int k) \<le> rne (x / 2 powi ulp_exp x)" by (rule rne_mono)
  then have "k \<le> rne (x / 2 powi ulp_exp x)" by (simp add: rne_of_int)
  then have "(of_int k :: rat) \<le> of_int (rne (x / 2 powi ulp_exp x))" by (simp only: of_int_le_iff)
  then show ?thesis using False p by (simp add: fl_def)
qed

lemma fl_nonneg: "0 \<le> x \<Longrightarrow> 0 \<le> fl x"
  using fl_grid_ge[of 0 x] by simp

lemma fl_exact:
  assumes x: "x = of_int m * 2 powi e" and m: "\<bar>m\<bar> < 2 ^ 53" and e: "- 1074 \<le> e"
  shows "fl x = x"
proof (cases "m = 0")
  case True
  then show ?thesis using x by (simp add: fl_def)
next
  case False
  have pe: "(0::rat) < 2 powi e" by (rule pow2_pos)
  have ax: "\<bar>x\<bar> = of_int \<bar>m\<bar> * 2 powi e" using x pe by (simp add: abs_mult)
  have "(0::rat) < of_int \<bar>m\<bar>" using False by simp
  then have x0: "0 < \<bar>x\<bar>" using ax pe by simp
  have "(of_int \<bar>m\<bar> :: rat) < of_int (2 ^ 53)" using m by (simp only: of_int_less_iff)
  then have "\<bar>x\<bar> < of_int (2 ^ 53) * 2 powi e" using ax pe by simp
  also have "\<dots> = 2 powi (53 + e)"
    using pow2_split[of e "53 + e"] by simp
  finally have lt: "\<bar>x\<bar> < 2 powi (53 + e)" .
  have "expo \<bar>x\<bar> < 53 + e"
  proof (rule ccontr)
    assume "\<not> expo \<bar>x\<bar> < 53 + e"
    then have "53 + e \<le> expo \<bar>x\<bar>" by simp
    then have "(2::rat) powi (53 + e) \<le> 2 powi expo \<bar>x\<bar>" by (rule pow2_mono)
    with expo_lower[OF x0] lt show False by linarith
  qed
  then have u: "ulp_exp x \<le> e" using e by (simp add: ulp_exp_def)
  define u where "u = ulp_exp x"
  have pu: "(0::rat) < 2 powi u" by (rule pow2_pos)
  have sp: "(2::rat) powi e = of_int (2 ^ nat (e - u)) * 2 powi u"
    using u unfolding u_def by (rule pow2_split)
  have "x / 2 powi u = of_int (m * 2 ^ nat (e - u))"
    using pu by (simp add: x sp)
  then have "rne (x / 2 powi u) = m * 2 ^ nat (e - u)" by (simp only: rne_of_int)
  then have "fl x = of_int (m * 2 ^ nat (e - u)) * 2 powi u"
    using False x pe by (simp add: fl_def u_def)
  also have "\<dots> = x" by (simp add: x sp)
  finally show ?thesis .
qed

lemma fl_of_int: "\<bar>m\<bar> < 2 ^ 53 \<Longrightarrow> fl (of_int m) = of_int m"
  using fl_exact[of "of_int m" m 0] by simp

lemma fl_mono:
  assumes "0 \<le> x" "x \<le> y"
  shows "fl x \<le> fl y"
proof (cases "x = 0")
  case True
  then show ?thesis using assms fl_nonneg[of y] by (simp add: fl_def)
next
  case False
  then have x0: "0 < x" and y0: "0 < y" using assms by linarith+
  have ee: "expo x \<le> expo y" using x0 assms(2) by (rule expo_mono)
  have ax: "\<bar>x\<bar> = x" "\<bar>y\<bar> = y" using x0 y0 by simp_all
  have uu: "ulp_exp x \<le> ulp_exp y" using ee by (simp add: ulp_exp_def ax)
  show ?thesis
  proof (cases "ulp_exp x = ulp_exp y")
    case True
    have p: "(0::rat) < 2 powi ulp_exp y" by (rule pow2_pos)
    have "x / 2 powi ulp_exp y \<le> y / 2 powi ulp_exp y"
      using assms(2) p by (simp add: divide_right_mono)
    then have "rne (x / 2 powi ulp_exp y) \<le> rne (y / 2 powi ulp_exp y)" by (rule rne_mono)
    then have "(of_int (rne (x / 2 powi ulp_exp y)) :: rat) \<le> of_int (rne (y / 2 powi ulp_exp y))"
      by (simp only: of_int_le_iff)
    then show ?thesis using x0 y0 p True by (simp add: fl_def)
  next
    case False
    then have lt: "ulp_exp x < ulp_exp y" using uu by simp
    then have uy: "ulp_exp y = expo y - 52" by (auto simp: ulp_exp_def ax max_def split: if_splits)
    have ey: "ulp_exp x \<le> expo y" using lt uy by simp
    have g1: "(2::rat) powi expo y = of_int (2 ^ nat (expo y - ulp_exp x)) * 2 powi ulp_exp x"
      using ey by (rule pow2_split)
    have "x \<le> 2 powi expo y" using assms(2) expo_lower[OF y0] x0
    proof -
      have "expo x + 1 \<le> expo y" using lt uy by (simp add: ulp_exp_def ax)
      then have "(2::rat) powi (expo x + 1) \<le> 2 powi expo y" by (rule pow2_mono)
      then show ?thesis using expo_upper[OF x0] by linarith
    qed
    then have a: "fl x \<le> 2 powi expo y"
      using fl_grid_le[of x "2 ^ nat (expo y - ulp_exp x)"] g1 by simp
    have g2: "(2::rat) powi expo y = of_int (2 ^ nat (expo y - ulp_exp y)) * 2 powi ulp_exp y"
      using uy by (intro pow2_split) simp
    have b: "2 powi expo y \<le> fl y"
      using fl_grid_ge[of "2 ^ nat (expo y - ulp_exp y)" y] g2 expo_lower[OF y0] by simp
    show ?thesis using a b by linarith
  qed
qed

lemma fl_error:
  assumes "2 powi (- 1022) \<le> x"
  shows "\<bar>fl x - x\<bar> \<le> x / 2 ^ 53"
proof -
  have x0: "0 < x" using assms pow2_pos[of "- 1022"] by linarith
  have "expo (2 powi (- 1022)) = - 1022"
    by (rule expo_unique) (simp_all add: pow2_pos pow2_strict_mono)
  then have "- 1022 \<le> expo x" using expo_mono[OF pow2_pos assms] by simp
  then have u: "ulp_exp x = expo x - 52" using x0 by (simp add: ulp_exp_def)
  define u where "u = expo x - 52"
  have pu: "(0::rat) < 2 powi u" by (rule pow2_pos)
  have "fl x - x = (of_int (rne (x / 2 powi u)) - x / 2 powi u) * 2 powi u"
    using x0 pu by (simp add: fl_def u u_def field_simps)
  then have "\<bar>fl x - x\<bar> = \<bar>of_int (rne (x / 2 powi u)) - x / 2 powi u\<bar> * 2 powi u"
    using pu by (simp add: abs_mult)
  also have "\<dots> \<le> (1 / 2) * 2 powi u"
    using rne_half[of "x / 2 powi u"] pu by (intro mult_right_mono) simp_all
  also have "\<dots> = 2 powi expo x / 2 ^ 53"
    using pow2_split[of u "expo x"] by (simp add: u_def)
  also have "\<dots> \<le> x / 2 ^ 53" using expo_lower[OF x0] by (simp add: divide_right_mono)
  finally show ?thesis .
qed

section \<open>The hexadecimal digest and its prefixes\<close>

lemma nibble_cases:
  "d < 16 \<Longrightarrow> d \<in> {0, 1, 2, 3, 4, 5, 6, 7, 8, 9, 10, 11, 12, 13, 14, 15::nat}"
  by simp arith

lemma hex_digit_value_hex_char: "d < 16 \<Longrightarrow> hex_digit_value (hex_char d) = Some d"
  using nibble_cases[of d] by (auto simp: hex_char_def hex_digit_value_def)

lemma lower_char_hex_char: "d < 16 \<Longrightarrow> lower_char (hex_char d) = hex_char d"
  using nibble_cases[of d] by (auto simp: hex_char_def lower_char_def)

lemma length_digest_hex: "length (digest_hex w) = 64"
  by (simp add: digest_hex_def)

lemma take_digest_hex:
  "n \<le> 64 \<Longrightarrow> take n (digest_hex w) = map (\<lambda>i. hex_char (unat w div 16 ^ (63 - i) mod 16)) [0..<n]"
  by (simp add: digest_hex_def take_map min_def)

lemma hex_digits_prefix_map:
  "(\<And>i. g i < 16) \<Longrightarrow> hex_digits_prefix (map (\<lambda>i. hex_char (g i)) xs) = map g xs"
  by (induction xs) (simp_all add: hex_digit_value_hex_char)

lemma hex_digits_prefix_take:
  "n \<le> 64 \<Longrightarrow> hex_digits_prefix (take n (digest_hex w)) = map (\<lambda>i. unat w div 16 ^ (63 - i) mod 16) [0..<n]"
  by (simp add: take_digest_hex hex_digits_prefix_map)

lemma toLowerCase_digest_hex: "toLowerCase (digest_hex w) = digest_hex w"
  by (simp add: toLowerCase_def digest_hex_def lower_char_hex_char)

lemma base16_snoc: "base16 (ds @ [d]) = 16 * base16 ds + d"
  by (simp add: base16_def)

lemma base16_nibbles:
  assumes "N < 16 ^ 64"
  shows "n \<le> 64 \<Longrightarrow> base16 (map (\<lambda>i. N div 16 ^ (63 - i) mod 16) [0..<n]) = N div 16 ^ (64 - n)"
proof (induction n)
  case 0
  then show ?case using assms by (simp add: base16_def)
next
  case (Suc n)
  then have n: "n < 64" by simp
  then have e: "64 - n = Suc (63 - n)" by simp
  have "N div 16 ^ (64 - n) = N div 16 ^ (63 - n) div 16"
    unfolding e power_Suc2 by (rule div_mult2_eq)
  then show ?case using Suc n by (simp add: base16_snoc)
qed

lemma unat_256_bound: "unat (w :: 256 word) < 16 ^ 64"
proof -
  have "unat w < 2 ^ 256" using unsigned_less[of w] by simp
  then show ?thesis by simp
qed

lemma base16_take_digest:
  "n \<le> 64 \<Longrightarrow> base16 (hex_digits_prefix (take n (digest_hex w))) = unat w div 16 ^ (64 - n)"
  by (simp add: hex_digits_prefix_take base16_nibbles[OF unat_256_bound])

lemma to_double_Num:
  assumes "\<bar>fl x\<bar> < 2 ^ 1024"
  shows "to_double x = Num (fl x)"
  using assms by (auto simp: to_double_def Let_def)

lemma to_double_of_nat:
  assumes "k < 2 ^ 53"
  shows "to_double (of_nat k) = Num (of_nat k)"
proof -
  have "\<bar>int k\<bar> < 2 ^ 53" using assms by simp
  then have f: "fl (of_nat k) = of_nat k" using fl_of_int[of "int k"] by simp
  have "(of_nat k :: rat) < of_nat (2 ^ 53)" using assms by (simp only: of_nat_less_iff)
  then have "\<bar>of_nat k :: rat\<bar> < 2 ^ 1024" by simp
  then show ?thesis using f by (simp add: to_double_Num)
qed

lemma parseInt16_take_digest:
  assumes "0 < n" "n \<le> 13"
  shows "parseInt16 (take n (digest_hex w)) = Num (of_nat (unat w div 16 ^ (64 - n)))"
    and "unat w div 16 ^ (64 - n) < 16 ^ n"
proof -
  have n64: "n \<le> 64" using assms by simp
  have "unat w < 16 ^ (64 - n) * 16 ^ n"
    using unat_256_bound[of w] n64 by (simp flip: power_add)
  then show b: "unat w div 16 ^ (64 - n) < 16 ^ n"
    by (simp add: less_mult_imp_div_less mult.commute)
  have "(16::nat) ^ n \<le> 16 ^ 13" using assms by (intro power_increasing) simp_all
  then have lt: "unat w div 16 ^ (64 - n) < 2 ^ 53" using b by simp
  have ne: "hex_digits_prefix (take n (digest_hex w)) \<noteq> []"
    using assms by (simp add: hex_digits_prefix_take[OF n64])
  then obtain d ds where ds: "hex_digits_prefix (take n (digest_hex w)) = d # ds"
    by (cases "hex_digits_prefix (take n (digest_hex w))") auto
  have "parseInt16 (take n (digest_hex w)) = to_double (of_nat (base16 (hex_digits_prefix (take n (digest_hex w)))))"
    by (simp add: parseInt16_def ds)
  then show "parseInt16 (take n (digest_hex w)) = Num (of_nat (unat w div 16 ^ (64 - n)))"
    by (simp add: base16_take_digest[OF n64] to_double_of_nat[OF lt])
qed

section \<open>Two-decimal values in double arithmetic\<close>

lemma pow2_m1022_le: "(2::rat) powi (- 1022) \<le> 1 / 128"
proof -
  have "(2::rat) powi (- 1022) \<le> 2 powi (- 7)" by (rule pow2_mono) simp
  also have "\<dots> = 1 / 128" using pow2_neg[of 7] by simp
  finally show ?thesis .
qed

lemma fl_ge_int:
  assumes "0 \<le> B" "of_int B \<le> x" "\<bar>B\<bar> < 2 ^ 53"
  shows "of_int B \<le> fl x"
proof -
  have "(0::rat) \<le> of_int B" using assms(1) by simp
  from fl_mono[OF this assms(2)] fl_of_int[OF assms(3)] show ?thesis by simp
qed

lemma round_trip_100:
  assumes "k < 2 ^ 50"
  shows "\<lfloor>fl (fl (of_nat k / 100) * 100) + 1 / 2\<rfloor> = int k"
proof (cases "k = 0")
  case True
  have "\<lfloor>(1::rat) / 2\<rfloor> = 0" by (rule floor_unique) simp_all
  then show ?thesis using True by (simp add: fl_def)
next
  case False
  define K :: rat where "K = of_nat k"
  define a where "a = fl (K / 100)"
  define b where "b = fl (a * 100)"
  have K1: "1 \<le> K" using False by (simp add: K_def)
  have "(of_nat k :: rat) < of_nat (2 ^ 50)" using assms by (simp only: of_nat_less_iff)
  then have K2: "K < 2 ^ 50" by (simp add: K_def)
  define E where "E = K / 2 ^ 53"
  have E: "0 \<le> E" "E * 4 < 1 / 2" using K1 K2 by (simp_all add: E_def)
  have "2 powi (- 1022) \<le> K / 100" using pow2_m1022_le K1 by linarith
  then have "\<bar>a - K / 100\<bar> \<le> K / 100 / 2 ^ 53" unfolding a_def by (rule fl_error)
  then have "\<bar>a - K / 100\<bar> \<le> E / 100" by (simp add: E_def)
  then have a1: "K - E \<le> a * 100" and a2: "a * 100 \<le> K + E"
    by linarith+
  have "E \<le> K / 2" using K1 by (simp add: E_def)
  then have "2 powi (- 1022) \<le> a * 100" using pow2_m1022_le K1 a1 by linarith
  then have eb: "\<bar>b - a * 100\<bar> \<le> a * 100 / 2 ^ 53" unfolding b_def by (rule fl_error)
  have "a * 100 \<le> K + K" using a2 \<open>E \<le> K / 2\<close> K1 by linarith
  then have "a * 100 / 2 ^ 53 \<le> (K + K) / 2 ^ 53" by (rule divide_right_mono) simp
  also have "\<dots> = 2 * E" by (simp add: E_def)
  finally have "\<bar>b - a * 100\<bar> \<le> 2 * E" using eb by linarith
  then have b1: "K - 3 * E \<le> b" and b2: "b \<le> K + 3 * E"
    using a1 a2 by linarith+
  have "of_int (int k) \<le> b + 1 / 2" "b + 1 / 2 < of_int (int k) + 1"
    using b1 b2 E by (simp_all add: K_def)
  then have "\<lfloor>b + 1 / 2\<rfloor> = int k" by (simp add: floor_unique)
  then show ?thesis by (simp add: b_def a_def K_def)
qed

lemma js_mod_of_nat:
  assumes "0 < m"
  shows "js_mod (Num (of_nat X)) (Num (of_nat m)) = Num (of_nat (X mod m))"
proof -
  have "trunc (of_nat X / of_nat m) = int (X div m)"
    by (simp add: trunc_def floor_divide_of_nat_eq)
  moreover have "(of_nat X :: rat) - of_nat m * of_nat (X div m) = of_nat (X mod m)"
    by (simp add: algebra_simps flip: of_nat_mult of_nat_add)
  ultimately show ?thesis using assms by simp
qed

lemma fl_pow2: "fl (2 ^ j) = 2 ^ j"
  using fl_exact[of "2 ^ j" 1 "int j"] by (simp add: power_int_def)

lemma to_double_bounded:
  assumes "0 \<le> x" "x \<le> 2 ^ j" "j < 1024"
  shows "to_double x = Num (fl x)" and "0 \<le> fl x" and "fl x \<le> 2 ^ j"
proof -
  show 0: "0 \<le> fl x" using assms(1) by (rule fl_nonneg)
  show j: "fl x \<le> 2 ^ j" using fl_mono[OF assms(1,2)] by (simp add: fl_pow2)
  have "(2::rat) ^ j < 2 ^ 1024" using assms(3) by (intro power_strict_increasing) simp_all
  then have "\<bar>fl x\<bar> < 2 ^ 1024" using 0 j by linarith
  then show "to_double x = Num (fl x)" by (rule to_double_Num)
qed

lemma to_double_exact:
  assumes "x = of_int m * 2 powi e" "\<bar>m\<bar> < 2 ^ 53" "- 1074 \<le> e" "\<bar>x\<bar> < 2 ^ 1024"
  shows "to_double x = Num x"
  using fl_exact[OF assms(1-3)] assms(4) by (simp add: to_double_Num)

text \<open>The step \<open>Math.round(v * 100) / 100\<close> on a double of two decimals.\<close>

lemma two_decimals:
  assumes "k < 2 ^ 50"
  shows "to_double (of_nat k / 100) = Num (fl (of_nat k / 100))"
    and "js_div (Math_round (js_mul (Num (fl (of_nat k / 100))) (Num 100))) (Num 100)
           = Num (fl (of_nat k / 100))"
proof -
  define a where "a = fl (of_nat k / 100)"
  have "(of_nat k :: rat) < of_nat (2 ^ 50)" using assms by (simp only: of_nat_less_iff)
  then have k: "(of_nat k :: rat) / 100 \<le> 2 ^ 50" by simp
  have k0: "(0::rat) \<le> of_nat k / 100" by simp
  show 1: "to_double (of_nat k / 100) = Num (fl (of_nat k / 100))"
    using k0 k by (rule to_double_bounded) simp
  have a: "0 \<le> a" "a \<le> 2 ^ 50" unfolding a_def
    using to_double_bounded(2,3)[OF k0 k] by simp_all
  have "a * 100 \<le> 2 ^ 50 * 2 ^ 7" using a by simp
  then have b: "a * 100 \<le> 2 ^ 57" by simp
  have b0: "0 \<le> a * 100" using a by simp
  have 2: "js_mul (Num a) (Num 100) = Num (fl (a * 100))"
    using to_double_bounded(1)[OF b0 b] by simp
  have 3: "Math_round (Num (fl (a * 100))) = Num (of_nat k)"
    using round_trip_100[OF assms] by (simp add: a_def)
  show "js_div (Math_round (js_mul (Num (fl (of_nat k / 100))) (Num 100))) (Num 100)
           = Num (fl (of_nat k / 100))"
    using 1 2 3 by (simp add: a_def)
qed

lemma verifyDice_result:
  "verifyDice H s c n =
     \<lparr> computedResult =
          Num (fl (of_nat (unat (H (computeHashInput s c n)) div 16 ^ 56 mod 10000) / 100)),
       computationHex = sha256 H (computeHashInput s c n),
       serverSeedHash = sha256 H s \<rparr>"
proof -
  define X where "X = unat (H (computeHashInput s c n)) div 16 ^ 56"
  define k where "k = X mod 10000"
  have p: "parseInt16 (take 8 (sha256 H (computeHashInput s c n))) = Num (of_nat X)"
    using parseInt16_take_digest(1)[of 8 "H (computeHashInput s c n)"]
    by (simp add: sha256_def X_def)
  have m: "js_mod (Num (of_nat X)) (Num 10000) = Num (of_nat k)"
    using js_mod_of_nat[of 10000 X] by (simp add: k_def)
  have "k < 10000" by (simp add: k_def)
  then have k: "k < 2 ^ 50" by simp
  have d: "js_div (Num (of_nat k)) (Num 100) = Num (fl (of_nat k / 100))"
    using two_decimals(1)[OF k] by simp
  show ?thesis
    unfolding verifyDice_def Let_def p m d two_decimals(2)[OF k]
    by (simp add: k_def X_def)
qed

section \<open>The crash multiplier\<close>

lemma clamp_value: "fl (1 - fl (1 / 10 ^ 12)) = 9007199254731985 / 9007199254740992"
  by code_simp

lemma clamp_literal: "to_double (1 / 10 ^ 12) = Num (fl (1 / 10 ^ 12))"
  by (rule to_double_bounded(1)[of _ 0]) simp_all

lemma fl_one: "fl 1 = 1"
  using fl_pow2[of 0] by simp

lemma fl_ratio_52:
  assumes "X < 2 ^ 52"
  shows "fl (of_nat X / 2 ^ 52) = of_nat X / 2 ^ 52"
proof (rule fl_exact[where m = "int X" and e = "- 52"])
  show "(of_nat X :: rat) / 2 ^ 52 = of_int (int X) * 2 powi (- 52)"
    using pow2_neg[of 52] by simp
  show "\<bar>int X\<bar> < 2 ^ 53" using assms by simp
qed simp

lemma crash_steps:
  assumes X: "X < 2 ^ 52"
  defines "R \<equiv> min (fl (of_nat X / 2 ^ 52)) (fl (1 - fl (1 / 10 ^ 12)))"
  shows "0 \<le> R" and "R < 1"
    and "fl (1 - R) = 1 - R"
    and "9007 / 2 ^ 53 \<le> 1 - R" and "1 - R \<le> 1"
proof -
  have r0: "fl (of_nat X / 2 ^ 52) = of_nat X / 2 ^ 52" using X by (rule fl_ratio_52)
  have R: "R = min (of_nat X / 2 ^ 52) (9007199254731985 / 9007199254740992)"
    unfolding R_def r0 clamp_value ..
  show "0 \<le> R" by (simp add: R)
  have "(of_nat X :: rat) < of_nat (2 ^ 52)" using X by (simp only: of_nat_less_iff)
  then have x1: "(of_nat X :: rat) / 2 ^ 52 < 1" by simp
  show "R < 1" using x1 by (simp add: R min_def)
  show "9007 / 2 ^ 53 \<le> 1 - R" by (simp add: R min_def)
  show "1 - R \<le> 1" using \<open>0 \<le> R\<close> by simp
  show "fl (1 - R) = 1 - R"
  proof (cases "(of_nat X :: rat) / 2 ^ 52 \<le> 9007199254731985 / 9007199254740992")
    case True
    then have "R = of_nat X / 2 ^ 52" by (simp add: R min_def)
    then have e: "1 - R = of_int (2 ^ 52 - int X) * 2 powi (- 52)"
      using pow2_neg[of 52] by (simp add: field_simps)
    show ?thesis by (rule fl_exact[OF e]) (use X in simp_all)
  next
    case False
    then have "R = 9007199254731985 / 9007199254740992" by (simp add: R min_def)
    then have e: "1 - R = of_int 9007 * 2 powi (- 53)"
      using pow2_neg[of 53] by simp
    show ?thesis by (rule fl_exact[OF e]) simp_all
  qed
qed

lemma tiny_value: "fl (1 / 10 ^ 12) = 4951760157141521 / 4951760157141521099596496896"
  by code_simp

lemma crash_chain:
  assumes X: "X < 2 ^ 52"
  defines "R \<equiv> min (fl (of_nat X / 2 ^ 52)) (fl (1 - fl (1 / 10 ^ 12)))"
  defines "q \<equiv> fl (1 / fl (1 - R))"
  defines "p \<equiv> fl (q * 100)"
  shows "to_double (1 / fl (1 - R)) = Num q" and "1 \<le> q" and "q \<le> 2 ^ 40"
    and "to_double (q * 100) = Num p" and "100 \<le> p" and "p \<le> 2 ^ 47"
    and "100 \<le> \<lfloor>p\<rfloor>" and "\<lfloor>p\<rfloor> \<le> 2 ^ 47"
proof -
  note st = crash_steps[OF X, folded R_def]
  have D: "fl (1 - R) = 1 - R" by (rule st(3))
  have d0: "0 < 1 - R" using st(2) by simp
  have i1: "1 \<le> 1 / (1 - R)" using d0 st(5) by (simp add: field_simps)
  have "1 / (1 - R) \<le> 1 / (9007 / 2 ^ 53)"
    using st(4) by (intro divide_left_mono) simp_all
  also have "\<dots> \<le> 2 ^ 40" by simp
  finally have i2: "1 / (1 - R) \<le> 2 ^ 40" .
  have i0: "0 \<le> 1 / (1 - R)" using i1 by linarith
  show "to_double (1 / fl (1 - R)) = Num q"
    unfolding q_def D using i0 i2 by (rule to_double_bounded(1)) simp
  show q1: "1 \<le> q" unfolding q_def D using fl_mono[of 1 "1 / (1 - R)"] i1 by (simp add: fl_one)
  show q2: "q \<le> 2 ^ 40" unfolding q_def D using i0 i2 by (rule to_double_bounded(3)) simp
  have m0: "0 \<le> q * 100" using q1 by simp
  have "q * 100 \<le> 2 ^ 40 * 2 ^ 7" using q2 by simp
  then have m2: "q * 100 \<le> 2 ^ 47" by simp
  show "to_double (q * 100) = Num p" unfolding p_def using m0 m2 by (rule to_double_bounded(1)) simp
  have "of_int 100 \<le> q * 100" using q1 by simp
  then have "of_int 100 \<le> fl (q * 100)" by (intro fl_ge_int) simp_all
  then show p1: "100 \<le> p" by (simp add: p_def)
  show p2: "p \<le> 2 ^ 47" unfolding p_def using m0 m2 by (rule to_double_bounded(3)) simp
  show "100 \<le> \<lfloor>p\<rfloor>" using p1 by (simp add: le_floor_iff)
  have "\<lfloor>p\<rfloor> \<le> \<lfloor>(2::rat) ^ 47\<rfloor>" using p2 by (rule floor_mono)
  then show "\<lfloor>p\<rfloor> \<le> 2 ^ 47" by simp
qed

lemma crash_multiplier_two_decimals:
  assumes X: "X < 2 ^ 52"
  shows "\<exists>F. 100 \<le> F \<and> F < 2 ^ 50 \<and> crash_multiplier X = fl (of_nat F / 100)"
proof -
  define R where "R = min (fl (of_nat X / 2 ^ 52)) (fl (1 - fl (1 / 10 ^ 12)))"
  define p where "p = fl (fl (1 / fl (1 - R)) * 100)"
  note ch = crash_chain[OF X, folded R_def, folded p_def]
  define F where "F = nat \<lfloor>p\<rfloor>"
  have F: "int F = \<lfloor>p\<rfloor>" using ch(7) by (simp add: F_def)
  have "100 \<le> F" using ch(7) unfolding F_def by linarith
  moreover have "(2::int) ^ 47 < 2 ^ 50" by simp
  then have "int F < 2 ^ 50" using ch(8) unfolding F by linarith
  then have "F < 2 ^ 50" by (simp add: nat_less_iff flip: of_nat_less_iff)
  moreover have "crash_multiplier X = fl (of_nat F / 100)"
    unfolding crash_multiplier_def Let_def
    by (simp only: R_def[symmetric] p_def[symmetric] F[symmetric] of_int_of_nat_eq)
  ultimately show ?thesis by blast
qed

lemma crash_multiplier_ge_1:
  assumes X: "X < 2 ^ 52"
  shows "1 \<le> crash_multiplier X"
proof -
  obtain F where F: "100 \<le> F" "crash_multiplier X = fl (of_nat F / 100)"
    using crash_multiplier_two_decimals[OF X] by blast
  have "(of_nat 100 :: rat) \<le> of_nat F" using F(1) by (simp only: of_nat_le_iff)
  then have "of_int 1 \<le> (of_nat F :: rat) / 100" by simp
  then have "of_int 1 \<le> fl (of_nat F / 100)" by (intro fl_ge_int) simp_all
  then show ?thesis by (simp add: F(2))
qed

lemma verifyCrash_result:
  "verifyCrash H s c n M =
     \<lparr> computedResult =
          js_div (Math_round (js_mul
            (Math_min (Num (crash_multiplier (unat (H (computeHashInput s c n)) div 16 ^ 51))) M)
            (Num 100))) (Num 100),
       computationHex = sha256 H (computeHashInput s c n),
       serverSeedHash = sha256 H s \<rparr>"
proof -
  define X where "X = unat (H (computeHashInput s c n)) div 16 ^ 51"
  define R where "R = min (fl (of_nat X / 2 ^ 52)) (fl (1 - fl (1 / 10 ^ 12)))"
  define q where "q = fl (1 / fl (1 - R))"
  define p where "p = fl (q * 100)"
  have "X < 16 ^ 13" using parseInt16_take_digest(2)[of 13 "H (computeHashInput s c n)"]
    by (simp add: X_def)
  then have X: "X < 2 ^ 52" by simp
  note st = crash_steps[OF X, folded R_def]
  note ch = crash_chain[OF X, folded R_def, folded q_def, folded p_def]
  have 1: "parseInt16 (take 13 (sha256 H (computeHashInput s c n))) = Num (of_nat X)"
    using parseInt16_take_digest(1)[of 13 "H (computeHashInput s c n)"]
    by (simp add: sha256_def X_def)
  have "(of_nat X :: rat) \<le> of_nat (2 ^ 52)" using X by (simp only: of_nat_le_iff)
  then have "(of_nat X :: rat) / 2 ^ 52 \<le> 2 ^ 0" by simp
  then have "to_double (of_nat X / 2 ^ 52) = Num (fl (of_nat X / 2 ^ 52))"
    by (rule to_double_bounded(1)[rotated]) simp_all
  then have 2: "js_div (Num (of_nat X)) TWO_TO_52 = Num (fl (of_nat X / 2 ^ 52))"
    by (simp add: TWO_TO_52_def)
  have t: "0 \<le> 1 - fl (1 / 10 ^ 12)" "1 - fl (1 / 10 ^ 12) \<le> 2 ^ 0"
    unfolding tiny_value by simp_all
  have 3: "js_sub (Num 1) (to_double (1 / 10 ^ 12)) = Num (fl (1 - fl (1 / 10 ^ 12)))"
    unfolding clamp_literal js_sub.simps
    using t by (rule to_double_bounded(1)) simp
  have 4: "Math_min (Num (fl (of_nat X / 2 ^ 52))) (Num (fl (1 - fl (1 / 10 ^ 12)))) = Num R"
    by (simp add: R_def)
  have "0 \<le> 1 - R" "1 - R \<le> 2 ^ 0" using st(2,5) by simp_all
  then have "to_double (1 - R) = Num (fl (1 - R))"
    by (rule to_double_bounded(1)) simp
  then have 5: "js_sub (Num 1) (Num R) = Num (fl (1 - R))" by simp
  have "fl (1 - R) \<noteq> 0" using st(2,3) by simp
  then have 6: "js_div (Num 1) (Num (fl (1 - R))) = Num q"
    using ch(1) by simp
  have 7: "js_mul (Num q) (Num 100) = Num p" using ch(4) by simp
  have 8: "Math_floor (Num p) = Num (of_int \<lfloor>p\<rfloor>)" by simp
  have b0: "(0::rat) \<le> of_int \<lfloor>p\<rfloor> / 100" using ch(7) by simp
  have "(of_int \<lfloor>p\<rfloor> :: rat) \<le> of_int (2 ^ 47)" using ch(8) by (simp only: of_int_le_iff)
  then have "(of_int \<lfloor>p\<rfloor> :: rat) / 100 \<le> 2 ^ 47" by simp
  with b0 have "to_double (of_int \<lfloor>p\<rfloor> / 100) = Num (fl (of_int \<lfloor>p\<rfloor> / 100))"
    by (rule to_double_bounded(1)) simp
  then have 9: "js_div (Num (of_int \<lfloor>p\<rfloor>)) (Num 100) = Num (crash_multiplier X)"
    by (simp add: crash_multiplier_def Let_def R_def q_def p_def)
  show ?thesis
    unfolding verifyCrash_def Let_def 1 2 3 4 5 6 7 8 9
    by (simp add: X_def)
qed

section \<open>Number to string on the safe integers\<close>

lemma digits_count_pos: "0 < digits_count n"
  by (subst digits_count.simps) simp

lemma digits_count_bounds:
  "1 \<le> n \<Longrightarrow> 10 ^ (digits_count n - 1) \<le> n \<and> n < 10 ^ digits_count n"
proof (induction n rule: digits_count.induct)
  case (1 n)
  show ?case
  proof (cases "n < 10")
    case True
    then show ?thesis using "1.prems" by (subst (1 2) digits_count.simps) simp
  next
    case False
    then have d: "1 \<le> n div 10" by simp
    from "1.IH"[OF False d]
    have lo: "10 ^ (digits_count (n div 10) - 1) \<le> n div 10"
      and hi: "n div 10 < 10 ^ digits_count (n div 10)" by simp_all
    have c: "digits_count n = Suc (digits_count (n div 10))"
      using False by (subst digits_count.simps) simp
    have "10 * 10 ^ (digits_count (n div 10) - 1) \<le> 10 * (n div 10)" using lo by simp
    also have "\<dots> \<le> n" by simp
    finally have l: "10 ^ (digits_count n - 1) \<le> n"
      using digits_count_pos[of "n div 10"] by (simp add: c flip: power_Suc)
    have "n div 10 + 1 \<le> 10 ^ digits_count (n div 10)" using hi by simp
    then have "10 * (n div 10 + 1) \<le> 10 * 10 ^ digits_count (n div 10)" by simp
    moreover have "n < 10 * (n div 10 + 1)" by simp
    ultimately have "n < 10 ^ digits_count n" by (simp add: c)
    with l show ?thesis by simp
  qed
qed

lemma digit_char_0: "digit_char 0 = CHR ''0''"
  by (simp add: digit_char_def)

lemma decimal_string_times_10:
  assumes "0 < a"
  shows "decimal_string (a * 10) = decimal_string a @ [CHR ''0'']"
  using assms by (subst decimal_string.simps) (simp add: digit_char_0)

lemma decimal_string_times_pow10:
  assumes "0 < a"
  shows "decimal_string (a * 10 ^ j) = decimal_string a @ replicate j (CHR ''0'')"
proof (induction j)
  case 0
  then show ?case by simp
next
  case (Suc j)
  have p: "0 < a * 10 ^ j" using assms by simp
  have "a * 10 ^ Suc j = a * 10 ^ j * 10" by simp
  then have "decimal_string (a * 10 ^ Suc j) = decimal_string (a * 10 ^ j * 10)"
    by (simp only:)
  also have "\<dots> = decimal_string (a * 10 ^ j) @ [CHR ''0'']"
    using p by (rule decimal_string_times_10)
  also have "\<dots> = decimal_string a @ replicate (Suc j) (CHR ''0'')"
    by (simp add: Suc replicate_append_same)
  finally show ?case .
qed

lemma fl_of_int_le: "0 \<le> m \<Longrightarrow> m \<le> 2 ^ 53 \<Longrightarrow> fl (of_int m) = of_int m"
proof (cases "m = 2 ^ 53")
  case True
  then show ?thesis using fl_pow2[of 53] by simp
next
  case False
  assume "0 \<le> m" "m \<le> 2 ^ 53"
  then have "\<bar>m\<bar> < 2 ^ 53" using False by simp
  then show ?thesis by (rule fl_of_int)
qed

lemma pow10_nonneg: "k \<le> m \<Longrightarrow> (10::rat) powi (int m - int k) = of_int (10 ^ (m - k))"
  by (simp add: power_int_def nat_diff_distrib')

lemma candidate_exact:
  assumes N: "0 < N" "N < 2 ^ 53" and k: "k \<le> m" and d: "10 ^ (m - k) dvd N"
  shows "candidate (of_int N) (int m) k = Some (N div 10 ^ (m - k))"
proof -
  define P :: int where "P = 10 ^ (m - k)"
  have P0: "0 < P" by (simp add: P_def)
  have sc: "(10::rat) powi (int m - int k) = of_int P" unfolding P_def using k by (rule pow10_nonneg)
  have lo: "\<lfloor>(of_int N :: rat) / of_int P\<rfloor> = N div P" by (simp add: floor_divide_of_int_eq)
  have e: "N div P * P = N" using d by (simp add: P_def)
  then have v: "(of_int (N div P) :: rat) * of_int P = of_int N"
    by (simp flip: of_int_mult)
  have f: "fl (of_int N) = of_int N" using N by (intro fl_of_int) simp
  have "(of_int (N div P + 1) :: rat) * of_int P = of_int (N div P) * of_int P + of_int P"
    by (simp add: algebra_simps)
  then have w: "(of_int (N div P + 1) :: rat) * of_int P = of_int N + of_int P"
    unfolding v .
  have dhi: "(of_int N :: rat) - of_int (N div P) * of_int P
               < of_int (N div P + 1) * of_int P - of_int N"
    unfolding v w using P0 by simp
  show ?thesis
    unfolding candidate_def Let_def sc lo v f P_def[symmetric]
    using dhi[unfolded v] by simp
qed

lemma candidate_none:
  assumes N: "0 < N" "N < 2 ^ 53" and k: "k \<le> m" and d: "\<not> 10 ^ (m - k) dvd N"
  shows "candidate (of_int N) (int m) k = None"
proof -
  define P :: int where "P = 10 ^ (m - k)"
  have P0: "0 < P" by (simp add: P_def)
  have sc: "(10::rat) powi (int m - int k) = of_int P" unfolding P_def using k by (rule pow10_nonneg)
  have lo: "\<lfloor>(of_int N :: rat) / of_int P\<rfloor> = N div P" by (simp add: floor_divide_of_int_eq)
  have md: "0 < N mod P" using d P0 by (simp add: P_def dvd_eq_mod_eq_0 order_less_le)
  have de: "N = N div P * P + N mod P" by simp
  have l: "N div P * P \<le> N - 1" using md de by linarith
  have "N mod P < P" using P0 by simp
  moreover have "(N div P + 1) * P = N div P * P + P" by (simp add: algebra_simps)
  ultimately have h: "N + 1 \<le> (N div P + 1) * P" using de by linarith
  have l0: "0 \<le> N div P * P" using N P0 by (simp add: pos_imp_zdiv_nonneg_iff)
  have "\<bar>N div P * P\<bar> < 2 ^ 53" using l l0 N by simp
  then have "fl (of_int (N div P * P)) = of_int (N div P * P)" by (rule fl_of_int)
  then have nl: "fl (of_int (N div P) * of_int P) \<noteq> of_int N"
    using l by (simp flip: of_int_mult)
  have h1: "(of_int (N + 1) :: rat) \<le> of_int ((N div P + 1) * P)"
    using h by (simp only: of_int_le_iff)
  have h0: "(0::rat) \<le> of_int (N + 1)" using N by simp
  have "fl (of_int (N + 1)) \<le> fl (of_int ((N div P + 1) * P))" using h0 h1 by (rule fl_mono)
  moreover have "fl (of_int (N + 1)) = of_int (N + 1)" using N by (intro fl_of_int_le) simp_all
  ultimately have "(of_int (N + 1) :: rat) \<le> fl (of_int ((N div P + 1) * P))" by simp
  then have "(of_int N :: rat) < fl (of_int ((N div P + 1) * P))" by simp
  then have "(of_int N :: rat) < fl (of_int (N div P + 1) * of_int P)"
    by (simp only: of_int_mult)
  then have nh: "fl (of_int (N div P + 1) * of_int P) \<noteq> of_int N"
    by linarith
  show ?thesis
    unfolding candidate_def Let_def sc lo using nl nh by simp
qed

lemma shortest_found:
  assumes "candidate x n k0 = Some s"
    and "\<And>k'. k \<le> k' \<Longrightarrow> k' < k0 \<Longrightarrow> candidate x n k' = None"
    and "k \<le> k0" and "k0 - k < fuel"
  shows "shortest x n k fuel = (k0, s)"
  using assms
proof (induction fuel arbitrary: k)
  case 0
  then show ?case by simp
next
  case (Suc fuel)
  show ?case
  proof (cases "k = k0")
    case True
    then show ?thesis using Suc.prems(1) by simp
  next
    case False
    then have lt: "k < k0" using Suc.prems(3) by simp
    have none: "candidate x n k = None" using Suc.prems(2)[of k] lt by simp
    have "shortest x n (Suc k) fuel = (k0, s)"
    proof (rule Suc.IH)
      show "candidate x n k0 = Some s" by (rule Suc.prems(1))
      show "\<And>k'. Suc k \<le> k' \<Longrightarrow> k' < k0 \<Longrightarrow> candidate x n k' = None"
        using Suc.prems(2) by simp
      show "Suc k \<le> k0" using lt by simp
      show "k0 - Suc k < fuel" using Suc.prems(4) lt by simp
    qed
    then show ?thesis by (simp add: none)
  qed
qed

text \<open>
  For a positive integer below \<open>2\<^sup>5\<^sup>3\<close> the template literal prints the decimal numeral.
\<close>

lemma number_to_string_safe_integer:
  assumes N: "0 < N" "N < 2 ^ 53"
  shows "number_to_string (Num (of_int N)) = decimal_string N"
proof -
  define m where "m = digits_count N"
  have b: "10 ^ (m - 1) \<le> N" "N < 10 ^ m"
    using digits_count_bounds[of N] N unfolding m_def by simp_all
  have m1: "1 \<le> m" unfolding m_def using digits_count_pos[of N] by simp
  have m16: "m \<le> 16"
  proof (rule ccontr)
    assume "\<not> m \<le> 16"
    then have "16 \<le> m - 1" by simp
    then have "(10::int) ^ 16 \<le> 10 ^ (m - 1)" by (intro power_increasing) simp_all
    then show False using b(1) N(2) by simp
  qed
  define k0 where "k0 = (LEAST k. 1 \<le> k \<and> k \<le> m \<and> 10 ^ (m - k) dvd N)"
  have ex: "1 \<le> m \<and> m \<le> m \<and> 10 ^ (m - m) dvd N" using m1 by simp
  have k0: "1 \<le> k0" "k0 \<le> m" "10 ^ (m - k0) dvd N"
    using LeastI[of "\<lambda>k. 1 \<le> k \<and> k \<le> m \<and> 10 ^ (m - k) dvd N" m, OF ex]
    unfolding k0_def by simp_all
  have least: "\<And>k'. 1 \<le> k' \<Longrightarrow> k' < k0 \<Longrightarrow> \<not> 10 ^ (m - k') dvd N"
  proof
    fix k' assume k': "1 \<le> k'" "k' < k0" and d: "10 ^ (m - k') dvd N"
    have "1 \<le> k' \<and> k' \<le> m \<and> 10 ^ (m - k') dvd N" using k' k0(2) d by simp
    then have "k0 \<le> k'" unfolding k0_def by (rule Least_le)
    then show False using k'(2) by simp
  qed
  define s where "s = N div 10 ^ (m - k0)"
  have c1: "candidate (of_int N) (int m) k0 = Some s"
    unfolding s_def using N k0(2) k0(3) by (rule candidate_exact)
  have c2: "\<And>k'. 1 \<le> k' \<Longrightarrow> k' < k0 \<Longrightarrow> candidate (of_int N) (int m) k' = None"
  proof -
    fix k' assume k': "1 \<le> k'" "k' < k0"
    have "k' \<le> m" using k'(2) k0(2) by simp
    then show "candidate (of_int N) (int m) k' = None"
      using N least[OF k'] by (intro candidate_none) simp_all
  qed
  have "k0 - 1 < 17" using k0(2) m16 by simp
  with c1 c2 k0(1) have sh: "shortest (of_int N) (int m) 1 17 = (k0, s)"
    by (intro shortest_found) simp_all
  have dg: "digits10 (of_int N) = int m"
    using N by (simp add: digits10_def m_def)
  have e: "s * 10 ^ (m - k0) = N" unfolding s_def using k0(3) by simp
  have "10 ^ (m - k0) * 10 ^ k0 = (10::int) ^ m" using k0(2) by (simp flip: power_add)
  then have "s * 10 ^ (m - k0) < 10 ^ k0 * 10 ^ (m - k0)" using b(2) e by (simp add: mult.commute)
  then have s_lt: "s < 10 ^ k0" by simp
  have s0: "0 < s"
  proof (rule ccontr)
    assume "\<not> 0 < s"
    then have "s \<le> 0" by simp
    then have "s * 10 ^ (m - k0) \<le> 0" by (simp add: mult_le_0_iff)
    then show False using e N(1) by simp
  qed
  have "decimal_string N = decimal_string (s * 10 ^ (m - k0))" by (simp only: e)
  also have "\<dots> = decimal_string s @ replicate (m - k0) (CHR ''0'')"
    using s0 by (rule decimal_string_times_pow10)
  finally have ds: "decimal_string N = decimal_string s @ replicate (m - k0) (CHR ''0'')" .
  have r: "nat (int m - int k0) = m - k0" by simp
  have "positive_to_string (of_int N) = decimal_string s @ replicate (m - k0) (CHR ''0'')"
    unfolding positive_to_string_def dg sh Let_def
    using s_lt k0(2) m16 r by simp
  then show ?thesis using N(1) ds by simp
qed

text \<open>What \<open>decimal_string\<close> writes is the decimal numeral: digits only, none of them a
  leading zero, and read back in base ten they give the number.\<close>

lemma of_char_digit_char: "d < 10 \<Longrightarrow> (of_char (digit_char d) :: nat) = 48 + d"
proof -
  assume "d < 10"
  then have "d \<in> {0, 1, 2, 3, 4, 5, 6, 7, 8, 9}" by simp arith
  then show ?thesis by (auto simp: digit_char_def)
qed

lemma digit_char_in: "d < 10 \<Longrightarrow> digit_char d \<in> set ''0123456789''"
  unfolding digit_char_def by (rule nth_mem) simp

lemma decimal_string_digits: "0 \<le> n \<Longrightarrow> set (decimal_string n) \<subseteq> set ''0123456789''"
proof (induction n rule: decimal_string.induct)
  case (1 n)
  show ?case
  proof (cases "n < 10")
    case True
    then have "nat n < 10" using "1.prems" by simp
    then show ?thesis using True digit_char_in[of "nat n"]
      by (subst decimal_string.simps) simp
  next
    case False
    have "nat (n mod 10) < 10" by simp
    then have "digit_char (nat (n mod 10)) \<in> set ''0123456789''" by (rule digit_char_in)
    moreover have "set (decimal_string (n div 10)) \<subseteq> set ''0123456789''"
      using "1.IH"[OF False] "1.prems" by simp
    ultimately show ?thesis using False by (subst decimal_string.simps) simp
  qed
qed

lemma decimal_string_nonempty: "decimal_string n \<noteq> []"
  by (subst decimal_string.simps) simp

lemma decimal_string_no_leading_zero: "0 < n \<Longrightarrow> hd (decimal_string n) \<noteq> CHR ''0''"
proof (induction n rule: decimal_string.induct)
  case (1 n)
  show ?case
  proof (cases "n < 10")
    case True
    then have "nat n < 10" "0 < nat n" using "1.prems" by simp_all
    then have "(of_char (digit_char (nat n)) :: nat) \<noteq> 48"
      using of_char_digit_char[of "nat n"] by simp
    then have "digit_char (nat n) \<noteq> CHR ''0''" by auto
    then show ?thesis using True by (subst decimal_string.simps) simp
  next
    case False
    then have "0 < n div 10" by simp
    then have "hd (decimal_string (n div 10)) \<noteq> CHR ''0''" using "1.IH"[OF False] by simp
    then show ?thesis using False decimal_string_nonempty[of "n div 10"]
      by (subst decimal_string.simps) simp
  qed
qed

lemma decimal_string_value:
  "0 \<le> n \<Longrightarrow> foldl (\<lambda>acc ch. 10 * acc + (int (of_char ch) - 48)) 0 (decimal_string n) = n"
proof (induction n rule: decimal_string.induct)
  case (1 n)
  show ?case
  proof (cases "n < 10")
    case True
    then have "nat n < 10" using "1.prems" by simp
    then have "(of_char (digit_char (nat n)) :: nat) = 48 + nat n" by (rule of_char_digit_char)
    then show ?thesis using True "1.prems" by (subst decimal_string.simps) simp
  next
    case False
    have "nat (n mod 10) < 10" by simp
    then have "(of_char (digit_char (nat (n mod 10))) :: nat) = 48 + nat (n mod 10)"
      by (rule of_char_digit_char)
    moreover have "foldl (\<lambda>acc ch. 10 * acc + (int (of_char ch) - 48)) 0 (decimal_string (n div 10))
                     = n div 10"
      using "1.IH"[OF False] "1.prems" by simp
    ultimately show ?thesis using False by (subst decimal_string.simps) simp
  qed
qed

section \<open>The dice derivation\<close>

lemma length_hex_digits_prefix_take:
  "n \<le> 64 \<Longrightarrow> length (hex_digits_prefix (take n (digest_hex w))) = n"
  by (simp add: hex_digits_prefix_take)

lemma pow16_56: "(16::nat) ^ 56 = 2 ^ 224"
  by simp

lemma number_to_string_1: "number_to_string (Num 1) = ''1''"
proof -
  have "number_to_string (Num (of_int 1)) = decimal_string 1"
    by (rule number_to_string_safe_integer) simp_all
  moreover have "decimal_string 1 = ''1''" by code_simp
  ultimately show ?thesis by simp
qed

text \<open>
  C1, as amended. For every server seed, client seed and positive integer nonce below
  \<open>2\<^sup>5\<^sup>3\<close>, the dice derivation hashes the string \<open>server_seed:client_seed:nonce\<close> with the
  nonce as its decimal numeral (digits only, no leading zero, of value the nonce), reads all
  of the first eight hexadecimal characters of the digest as an unsigned integer \<open>x\<close> (the
  top 32 bits of the digest), and returns \<open>(x mod 10000) / 100\<close>, a value of two decimals,
  as the nearest double, together with the full digest and the hash of the server seed.
\<close>

theorem dice_derivation:
  assumes "0 < N" "N < 2 ^ 53"
  shows "\<exists>ds. ds \<noteq> [] \<and> set ds \<subseteq> set ''0123456789'' \<and> hd ds \<noteq> CHR ''0'' \<and>
           foldl (\<lambda>acc ch. 10 * acc + (int (of_char ch) - 48)) 0 ds = N \<and>
           computeHashInput s c (Num (of_int N)) = s @ '':'' @ c @ '':'' @ ds \<and>
           (let d = sha256 H (s @ '':'' @ c @ '':'' @ ds);
                x = base16 (hex_digits_prefix (take 8 d))
            in length (hex_digits_prefix (take 8 d)) = 8 \<and>
               parseInt16 (take 8 d) = Num (of_nat x) \<and>
               x = unat (H (s @ '':'' @ c @ '':'' @ ds)) div 2 ^ 224 \<and>
               verifyDice H s c (Num (of_int N)) =
                 \<lparr> computedResult = to_double (of_nat (x mod 10000) / 100),
                   computationHex = d,
                   serverSeedHash = sha256 H s \<rparr>)"
proof -
  define ds where "ds = decimal_string N"
  define w where "w = H (s @ '':'' @ c @ '':'' @ ds)"
  define x where "x = unat w div 16 ^ 56"
  have N0: "0 \<le> N" using assms(1) by simp
  have i: "computeHashInput s c (Num (of_int N)) = s @ '':'' @ c @ '':'' @ ds"
    unfolding computeHashInput_def ds_def
    by (simp only: number_to_string_safe_integer[OF assms])
  have b: "base16 (hex_digits_prefix (take 8 (digest_hex w))) = x"
    using base16_take_digest[of 8 w] by (simp add: x_def)
  have l: "length (hex_digits_prefix (take 8 (digest_hex w))) = 8"
    by (simp add: length_hex_digits_prefix_take)
  have p: "parseInt16 (take 8 (digest_hex w)) = Num (of_nat x)"
    using parseInt16_take_digest(1)[of 8 w] by (simp add: x_def)
  have "x mod 10000 < 2 ^ 50"
    by (rule less_trans[of _ 10000]) simp_all
  then have t: "to_double (of_nat (x mod 10000) / 100) = Num (fl (of_nat (x mod 10000) / 100))"
    by (rule two_decimals(1))
  have v: "verifyDice H s c (Num (of_int N)) =
        \<lparr> computedResult = to_double (of_nat (x mod 10000) / 100),
          computationHex = digest_hex w,
          serverSeedHash = sha256 H s \<rparr>"
    unfolding verifyDice_result t i by (simp add: w_def x_def sha256_def)
  have x2: "x = unat w div 2 ^ 224" unfolding x_def pow16_56 ..
  have r: "let d = sha256 H (s @ '':'' @ c @ '':'' @ ds);
                x = base16 (hex_digits_prefix (take 8 d))
            in length (hex_digits_prefix (take 8 d)) = 8 \<and>
               parseInt16 (take 8 d) = Num (of_nat x) \<and>
               x = unat (H (s @ '':'' @ c @ '':'' @ ds)) div 2 ^ 224 \<and>
               verifyDice H s c (Num (of_int N)) =
                 \<lparr> computedResult = to_double (of_nat (x mod 10000) / 100),
                   computationHex = d,
                   serverSeedHash = sha256 H s \<rparr>"
    unfolding Let_def sha256_def[of H "s @ '':'' @ c @ '':'' @ ds"] w_def[symmetric]
    using b l p v x2 by simp
  have "ds \<noteq> []" unfolding ds_def by (rule decimal_string_nonempty)
  moreover have "set ds \<subseteq> set ''0123456789''" unfolding ds_def using N0 by (rule decimal_string_digits)
  moreover have "hd ds \<noteq> CHR ''0''" unfolding ds_def using assms(1) by (rule decimal_string_no_leading_zero)
  moreover have "foldl (\<lambda>acc ch. 10 * acc + (int (of_char ch) - 48)) 0 ds = N"
    unfolding ds_def using N0 by (rule decimal_string_value)
  ultimately show ?thesis using i r by blast
qed

theorem dice_derivation_witness:
  "(0::int) < 1 \<and> (1::int) < 2 ^ 53 \<and>
   computationHex (verifyDice sha256_vectors ''seed123'' ''client456'' (Num (of_int 1)))
     = sha256 sha256_vectors ''seed123:client456:1''"
proof -
  have h: "(0::int) < 1" "(1::int) < 2 ^ 53" by simp_all
  from dice_derivation[OF h, of "''seed123''" "''client456''" sha256_vectors]
  obtain ds where
    i: "computeHashInput ''seed123'' ''client456'' (Num (of_int 1)) = ''seed123'' @ '':'' @ ''client456'' @ '':'' @ ds"
    and v: "verifyDice sha256_vectors ''seed123'' ''client456'' (Num (of_int 1)) =
              \<lparr> computedResult = to_double (of_nat (base16 (hex_digits_prefix (take 8
                    (sha256 sha256_vectors (''seed123'' @ '':'' @ ''client456'' @ '':'' @ ds)))) mod 10000) / 100),
                computationHex = sha256 sha256_vectors (''seed123'' @ '':'' @ ''client456'' @ '':'' @ ds),
                serverSeedHash = sha256 sha256_vectors ''seed123'' \<rparr>"
    unfolding Let_def by blast
  have "computeHashInput ''seed123'' ''client456'' (Num (of_int 1)) = ''seed123:client456:1''"
    unfolding computeHashInput_def of_int_1 number_to_string_1 by simp
  then have "ds = ''1''" using i by simp
  then show ?thesis using h v by simp
qed

text \<open>
  C1 as the specification states it, for every positive integer nonce, fails from
  \<open>10\<^sup>2\<^sup>1\<close> on: that nonce is a double and an integer, \<open>validateRequest\<close> lets it
  through, and the template literal prints it as \<open>1e+21\<close>, so the digest is the one of
  \<open>a:b:1e+21\<close> and not the one of \<open>a:b:1000000000000000000000\<close>.
\<close>

lemma fl_1e21: "fl (10 ^ 21) = 10 ^ 21"
  by code_simp

lemma number_to_string_1e21: "number_to_string (Num (10 ^ 21)) = ''1e+21''"
  by code_simp

lemma digests_differ:
  assumes "unat w div 16 ^ 56 \<noteq> unat w' div 16 ^ 56"
  shows "digest_hex w \<noteq> digest_hex w'"
proof
  assume "digest_hex w = digest_hex w'"
  then have "base16 (hex_digits_prefix (take 8 (digest_hex w)))
               = base16 (hex_digits_prefix (take 8 (digest_hex w')))" by simp
  then show False using assms by (simp add: base16_take_digest)
qed

theorem dice_preimage_counterexample:
  "Number_isInteger (Num (10 ^ 21)) \<and> js_lt (Num (10 ^ 21)) (Num 1) = False \<and>
   computeHashInput ''a'' ''b'' (Num (10 ^ 21)) = ''a:b:1e+21'' \<and>
   computationHex (verifyDice sha256_vectors ''a'' ''b'' (Num (10 ^ 21)))
     = sha256 sha256_vectors ''a:b:1e+21'' \<and>
   sha256 sha256_vectors ''a:b:1e+21'' \<noteq> sha256 sha256_vectors ''a:b:1000000000000000000000''"
proof -
  have i: "computeHashInput ''a'' ''b'' (Num (10 ^ 21)) = ''a:b:1e+21''"
    unfolding computeHashInput_def number_to_string_1e21 by simp
  have "unat (sha256_vectors ''a:b:1e+21'') div 16 ^ 56
          \<noteq> unat (sha256_vectors ''a:b:1000000000000000000000'') div 16 ^ 56"
    by (simp add: sha256_vectors_def)
  then have d: "sha256 sha256_vectors ''a:b:1e+21''
                  \<noteq> sha256 sha256_vectors ''a:b:1000000000000000000000''"
    unfolding sha256_def by (rule digests_differ)
  have "\<lfloor>(10::rat) ^ 21\<rfloor> = 10 ^ 21" by (rule floor_unique) simp_all
  then have n: "Number_isInteger (Num (10 ^ 21))" by simp
  have c: "computationHex (verifyDice sha256_vectors ''a'' ''b'' (Num (10 ^ 21)))
             = sha256 sha256_vectors ''a:b:1e+21''"
    unfolding verifyDice_result i by simp
  have l: "js_lt (Num (10 ^ 21)) (Num 1) = False" by simp
  show ?thesis using i d n c l by blast
qed

lemma fl_99_99: "fl (9999 / 100) = 7036170730324623 / 70368744177664"
  by code_simp

text \<open>
  C8. For every server seed, client seed and nonce, the computed result of the dice
  derivation is a finite number between 0.00 and 99.99.
\<close>

theorem dice_range:
  "\<exists>v. computedResult (verifyDice H s c n) = Num v \<and> 0 \<le> v \<and> v \<le> 9999 / 100"
proof -
  define k where "k = unat (H (computeHashInput s c n)) div 16 ^ 56 mod 10000"
  have r: "computedResult (verifyDice H s c n) = Num (fl (of_nat k / 100))"
    by (simp add: verifyDice_result k_def)
  have "k < 10000" by (simp add: k_def)
  then have "k \<le> 9999" by simp
  then have "(of_nat k :: rat) \<le> of_nat 9999" by (simp only: of_nat_le_iff)
  then have le: "(of_nat k :: rat) / 100 \<le> 9999 / 100" by simp
  have 0: "(0::rat) \<le> of_nat k / 100" by simp
  have "fl (of_nat k / 100) \<le> fl (9999 / 100)" using 0 le by (rule fl_mono)
  also have "\<dots> \<le> 9999 / 100" unfolding fl_99_99 by simp
  finally have "fl (of_nat k / 100) \<le> 9999 / 100" .
  moreover have "0 \<le> fl (of_nat k / 100)" using 0 by (rule fl_nonneg)
  ultimately show ?thesis using r by blast
qed

section \<open>The crash derivation\<close>

lemma pow16_51: "(16::nat) ^ 51 = 2 ^ 204"
  by simp

text \<open>Rounding a double of two decimals to two decimals returns it.\<close>

lemma nearest_2dp_two_decimals:
  assumes "k < 2 ^ 50"
  shows "nearest_2dp (Num (fl (of_nat k / 100))) = Num (fl (of_nat k / 100))"
proof -
  have "\<lfloor>fl (of_nat k / 100) * 100 + 1 / 2\<rfloor> = int k"
  proof (cases "k = 0")
    case True
    have "\<lfloor>(1::rat) / 2\<rfloor> = 0" by (rule floor_unique) simp_all
    then show ?thesis using True by (simp add: fl_def)
  next
    case False
    define K :: rat where "K = of_nat k"
    define a where "a = fl (K / 100)"
    have K1: "1 \<le> K" using False by (simp add: K_def)
    have "(of_nat k :: rat) < of_nat (2 ^ 50)" using assms by (simp only: of_nat_less_iff)
    then have K2: "K < 2 ^ 50" by (simp add: K_def)
    define E where "E = K / 2 ^ 53"
    have E: "0 \<le> E" "E < 1 / 2" using K1 K2 by (simp_all add: E_def)
    have "2 powi (- 1022) \<le> K / 100" using pow2_m1022_le K1 by linarith
    then have "\<bar>a - K / 100\<bar> \<le> K / 100 / 2 ^ 53" unfolding a_def by (rule fl_error)
    then have "\<bar>a - K / 100\<bar> \<le> E / 100" by (simp add: E_def)
    then have "K - E \<le> a * 100" "a * 100 \<le> K + E" by linarith+
    then have "of_int (int k) \<le> a * 100 + 1 / 2" "a * 100 + 1 / 2 < of_int (int k) + 1"
      using E by (simp_all add: K_def)
    then have "\<lfloor>a * 100 + 1 / 2\<rfloor> = int k" by (simp add: floor_unique)
    then show ?thesis by (simp add: a_def K_def)
  qed
  then show ?thesis using two_decimals(1)[OF assms] by simp
qed

lemma crash_multiplier_le_41:
  assumes X: "X < 2 ^ 52"
  shows "crash_multiplier X \<le> 2 ^ 41"
proof -
  define R where "R = min (fl (of_nat X / 2 ^ 52)) (fl (1 - fl (1 / 10 ^ 12)))"
  define p where "p = fl (fl (1 / fl (1 - R)) * 100)"
  note ch = crash_chain[OF X, folded R_def, folded p_def]
  have "(of_int \<lfloor>p\<rfloor> :: rat) \<le> of_int (2 ^ 47)" using ch(8) by (simp only: of_int_le_iff)
  then have u: "(of_int \<lfloor>p\<rfloor> :: rat) / 100 \<le> 2 ^ 41" by simp
  have 0: "(0::rat) \<le> of_int \<lfloor>p\<rfloor> / 100" using ch(7) by simp
  have "fl (of_int \<lfloor>p\<rfloor> / 100) \<le> 2 ^ 41" using 0 u by (rule to_double_bounded(3)) simp
  then show ?thesis by (simp add: crash_multiplier_def Let_def R_def p_def)
qed

text \<open>
  Capped at a non-negative cap of two decimals, the nearest double of \<open>j / 100\<close>, the
  multiplier is again a double of two decimals.
\<close>

lemma crash_capped_two_decimals:
  assumes X: "X < 2 ^ 52"
  shows "\<exists>k. k < 2 ^ 50 \<and>
           Math_min (Num (crash_multiplier X)) (to_double (of_nat j / 100)) = Num (fl (of_nat k / 100))"
proof -
  obtain F where F: "F < 2 ^ 50" "crash_multiplier X = fl (of_nat F / 100)"
    using crash_multiplier_two_decimals[OF X] by blast
  show ?thesis
  proof (cases "j < 2 ^ 50")
    case True
    have c: "to_double (of_nat j / 100) = Num (fl (of_nat j / 100))"
      using True by (rule two_decimals(1))
    show ?thesis
    proof (cases "crash_multiplier X \<le> fl (of_nat j / 100)")
      case True
      then have "Math_min (Num (crash_multiplier X)) (to_double (of_nat j / 100))
                   = Num (fl (of_nat F / 100))"
        by (simp add: c min_def F(2))
      then show ?thesis using F(1) by blast
    next
      case False
      then have "Math_min (Num (crash_multiplier X)) (to_double (of_nat j / 100))
                   = Num (fl (of_nat j / 100))"
        by (simp add: c min_def)
      then show ?thesis using \<open>j < 2 ^ 50\<close> by blast
    qed
  next
    case False
    then have "(2::nat) ^ 50 \<le> j" by simp
    then have "(of_nat (2 ^ 50) :: rat) \<le> of_nat j" by (simp only: of_nat_le_iff)
    then have "(2::rat) ^ 43 \<le> of_nat j / 100" by simp
    then have "fl (2 ^ 43) \<le> fl (of_nat j / 100)" by (intro fl_mono) simp_all
    then have big: "2 ^ 43 \<le> fl (of_nat j / 100)" by (simp only: fl_pow2)
    have m: "crash_multiplier X \<le> fl (of_nat j / 100)"
    proof -
      have "crash_multiplier X \<le> 2 ^ 41" by (rule crash_multiplier_le_41[OF X])
      also have "(2::rat) ^ 41 \<le> 2 ^ 43" by simp
      also note big
      finally show ?thesis .
    qed
    have "Math_min (Num (crash_multiplier X)) (to_double (of_nat j / 100))
            = Num (crash_multiplier X)"
      using m big by (simp add: to_double_def Let_def min_def)
    then show ?thesis using F by auto
  qed
qed

text \<open>
  C2, as amended. For every server seed, client seed and nonce and every non-negative cap
  of at most two decimals (the double nearest to \<open>j / 100\<close> for a natural number \<open>j\<close>,
  every non-negative integer cap among them), the crash derivation reads all of the first
  thirteen hexadecimal characters of the digest as an unsigned integer \<open>x\<close> (the top 52
  bits of the digest, so \<open>x < 2\<^sup>5\<^sup>2\<close>), computes the multiplier
  \<open>floor((1 / (1 - r)) * 100) / 100\<close> from \<open>r = min(x / 2\<^sup>5\<^sup>2, 1 - 1e-12)\<close> in double
  arithmetic, caps it at \<open>max_multiplier\<close> and returns the capped value rounded to two
  decimals, which is the capped value itself, with the full digest and the hash of the
  server seed.
\<close>

theorem crash_derivation:
  "let d = sha256 H (computeHashInput s c n);
       x = base16 (hex_digits_prefix (take 13 d));
       capped = Math_min (Num (crash_multiplier x)) (to_double (of_nat j / 100))
   in length (hex_digits_prefix (take 13 d)) = 13 \<and>
      parseInt16 (take 13 d) = Num (of_nat x) \<and>
      x = unat (H (computeHashInput s c n)) div 2 ^ 204 \<and>
      x < 2 ^ 52 \<and>
      verifyCrash H s c n (to_double (of_nat j / 100)) =
        \<lparr> computedResult = nearest_2dp capped,
          computationHex = d,
          serverSeedHash = sha256 H s \<rparr> \<and>
      nearest_2dp capped = capped"
proof -
  define w where "w = H (computeHashInput s c n)"
  define x where "x = unat w div 16 ^ 51"
  define capped where "capped = Math_min (Num (crash_multiplier x)) (to_double (of_nat j / 100))"
  have b: "base16 (hex_digits_prefix (take 13 (digest_hex w))) = x"
    using base16_take_digest[of 13 w] by (simp add: x_def)
  have l: "length (hex_digits_prefix (take 13 (digest_hex w))) = 13"
    by (simp add: length_hex_digits_prefix_take)
  have p: "parseInt16 (take 13 (digest_hex w)) = Num (of_nat x)"
    using parseInt16_take_digest(1)[of 13 w] by (simp add: x_def)
  have "x < 16 ^ 13" using parseInt16_take_digest(2)[of 13 w] by (simp add: x_def)
  then have x52: "x < 2 ^ 52" by simp
  obtain k where k: "k < 2 ^ 50" "capped = Num (fl (of_nat k / 100))"
    using crash_capped_two_decimals[OF x52, of j] unfolding capped_def by blast
  have n: "nearest_2dp capped = capped"
    unfolding k(2) using k(1) by (rule nearest_2dp_two_decimals)
  have "js_div (Math_round (js_mul capped (Num 100))) (Num 100) = capped"
    unfolding k(2) using k(1) by (rule two_decimals(2))
  then have v: "verifyCrash H s c n (to_double (of_nat j / 100)) =
        \<lparr> computedResult = nearest_2dp capped,
          computationHex = digest_hex w,
          serverSeedHash = sha256 H s \<rparr>"
    unfolding verifyCrash_result n
    by (simp add: w_def x_def sha256_def capped_def)
  have x2: "x = unat w div 2 ^ 204" unfolding x_def pow16_51 ..
  show ?thesis
    unfolding Let_def sha256_def[of H "computeHashInput s c n"] w_def[symmetric]
      b capped_def[symmetric]
    using l p v x2 x52 n by simp
qed

text \<open>With an integer cap of at least 1 the result is the smaller of multiplier and cap.\<close>

lemma crash_capped:
  assumes X: "X < 2 ^ 52" and M: "1 \<le> M"
  shows "js_div (Math_round (js_mul
           (Math_min (Num (crash_multiplier X)) (Num (of_int M))) (Num 100))) (Num 100)
           = Num (min (crash_multiplier X) (of_int M))"
proof (cases "crash_multiplier X \<le> of_int M")
  case True
  obtain F where F: "F < 2 ^ 50" "crash_multiplier X = fl (of_nat F / 100)"
    using crash_multiplier_two_decimals[OF X] by blast
  have "js_div (Math_round (js_mul (Num (crash_multiplier X)) (Num 100))) (Num 100)
          = Num (crash_multiplier X)"
    unfolding F(2) by (rule two_decimals(2)[OF F(1)])
  then show ?thesis using True by (simp add: min_def)
next
  case False
  then have "(of_int M :: rat) < 2 ^ 41" using crash_multiplier_le_41[OF X] by linarith
  then have "(of_int M :: rat) < of_int (2 ^ 41)" by simp
  then have M41: "M < 2 ^ 41" by (simp only: of_int_less_iff)
  define k where "k = nat (100 * M)"
  have k: "int k = 100 * M" using M by (simp add: k_def)
  have "int k < 2 ^ 50" using M41 unfolding k by simp
  then have k50: "k < 2 ^ 50" by (simp add: nat_less_iff flip: of_nat_less_iff)
  have "(of_nat k :: rat) = of_int (int k)" by simp
  then have "(of_nat k :: rat) = 100 * of_int M" unfolding k by simp
  then have e: "(of_nat k :: rat) / 100 = of_int M" by simp
  have "\<bar>M\<bar> < 2 ^ 53" using M M41 by simp
  then have f: "fl (of_nat k / 100) = of_int M" unfolding e by (rule fl_of_int)
  have "js_div (Math_round (js_mul (Num (of_int M)) (Num 100))) (Num 100) = Num (of_int M)"
    using two_decimals(2)[OF k50] unfolding f .
  then show ?thesis using False by (simp add: min_def)
qed

text \<open>
  C5, as amended. For every server seed, client seed and nonce and every integer cap
  \<open>max_multiplier \<ge> 1\<close>, the computed result of the crash derivation is a finite number,
  at least 1.00 and at most \<open>max_multiplier\<close>.
\<close>

theorem crash_range:
  assumes "1 \<le> M"
  shows "\<exists>v. computedResult (verifyCrash H s c n (Num (of_int M))) = Num v \<and>
           1 \<le> v \<and> v \<le> of_int M"
proof -
  define X where "X = unat (H (computeHashInput s c n)) div 16 ^ 51"
  have "X < 16 ^ 13" using parseInt16_take_digest(2)[of 13 "H (computeHashInput s c n)"]
    by (simp add: X_def)
  then have X: "X < 2 ^ 52" by simp
  have r: "computedResult (verifyCrash H s c n (Num (of_int M)))
             = Num (min (crash_multiplier X) (of_int M))"
    using crash_capped[OF X assms] by (simp add: verifyCrash_result X_def)
  have "(1::rat) \<le> of_int M" using assms by simp
  then have "1 \<le> min (crash_multiplier X) (of_int M)"
    using crash_multiplier_ge_1[OF X] by simp
  moreover have "min (crash_multiplier X) (of_int M) \<le> of_int M" by simp
  ultimately show ?thesis using r by blast
qed

text \<open>
  C5 as the specification states it, for every cap, fails for a cap below 1: with
  \<open>max_multiplier = 0\<close> the computed result is 0, which is below 1.00.
\<close>

theorem crash_range_counterexample:
  "computedResult (verifyCrash sha256_vectors ''test'' ''test'' (Num 1) (Num 0)) = Num 0 \<and>
   js_lt (computedResult (verifyCrash sha256_vectors ''test'' ''test'' (Num 1) (Num 0))) (Num 1)"
proof -
  define X where "X = unat (sha256_vectors (computeHashInput ''test'' ''test'' (Num 1))) div 16 ^ 51"
  have "X < 16 ^ 13"
    using parseInt16_take_digest(2)[of 13 "sha256_vectors (computeHashInput ''test'' ''test'' (Num 1))"]
    by (simp add: X_def)
  then have X: "X < 2 ^ 52" by simp
  have m: "min (crash_multiplier X) 0 = 0"
    using crash_multiplier_ge_1[OF X] by (simp add: min_def)
  have z: "to_double 0 = Num 0" by (simp add: to_double_def fl_def)
  have f: "\<lfloor>(1::rat) / 2\<rfloor> = 0" by (rule floor_unique) simp_all
  have "computedResult (verifyCrash sha256_vectors ''test'' ''test'' (Num 1) (Num 0)) = Num 0"
    unfolding verifyCrash_result X_def[symmetric] by (simp add: m z f)
  then show ?thesis by simp
qed

theorem crash_range_witness:
  "(1::int) \<le> 10000 \<and>
   (\<exists>v. computedResult (verifyCrash sha256_vectors ''test'' ''test'' (Num 1) (Num (of_int 10000))) = Num v \<and>
      1 \<le> v \<and> v \<le> of_int 10000)"
  using crash_range[of 10000 sha256_vectors "''test''" "''test''" "Num 1"] by simp

section \<open>Result comparison\<close>

lemma fl_0_01: "fl (1 / 100) = 5764607523034235 / 576460752303423488"
  by code_simp

lemma literal_0_01: "to_double (1 / 100) = Num (fl (1 / 100))"
  by (rule to_double_bounded(1)[of _ 0]) simp_all

lemma epsilon_times_10: "js_mul Number_EPSILON (Num 10) = Num (10 / 2 ^ 52)"
proof -
  have e: "(10::rat) / 2 ^ 52 = of_int 5 * 2 powi (- 51)" using pow2_neg[of 51] by simp
  have "to_double (10 / 2 ^ 52) = Num (10 / 2 ^ 52)"
    by (rule to_double_exact[OF e]) simp_all
  then show ?thesis by (simp add: Number_EPSILON_def)
qed

lemma abs_sub_lt:
  assumes "0 \<le> t" "t < 2 ^ 1024"
  shows "js_lt (Math_abs (js_sub (Num a) (Num b))) (Num t) \<longleftrightarrow> \<bar>fl (a - b)\<bar> < t"
  using assms by (auto simp: to_double_def Let_def)

text \<open>The tolerant mode on finite numbers: the rounded difference against the double \<open>0.01\<close>.\<close>

lemma tolerant_compare:
  "compareResults (Num a) (Num b) False \<longleftrightarrow> \<bar>fl (a - b)\<bar> < fl (1 / 100)"
proof -
  have t: "0 \<le> fl (1 / 100)" "fl (1 / 100) < 2 ^ 1024"
    unfolding fl_0_01 by simp_all
  show ?thesis
    unfolding compareResults_def literal_0_01 using abs_sub_lt[OF t] by simp
qed

text \<open>The number literals \<open>42.37\<close>, \<open>42.38\<close> and \<open>42.39\<close>, and the double differences.\<close>

lemma fl_42_37: "fl (4237 / 100) = 5963047381615247 / 140737488355328"
  by code_simp

lemma fl_42_38: "fl (4238 / 100) = 5964454756498801 / 140737488355328"
  by code_simp

lemma fl_42_39: "fl (4239 / 100) = 2982931065691177 / 70368744177664"
  by code_simp

lemma literal_42_37: "to_double (4237 / 100) = Num (5963047381615247 / 140737488355328)"
  unfolding fl_42_37[symmetric] by (rule to_double_bounded(1)[of _ 6]) simp_all

lemma literal_42_38: "to_double (4238 / 100) = Num (5964454756498801 / 140737488355328)"
  unfolding fl_42_38[symmetric] by (rule to_double_bounded(1)[of _ 6]) simp_all

lemma literal_42_39: "to_double (4239 / 100) = Num (2982931065691177 / 70368744177664)"
  unfolding fl_42_39[symmetric] by (rule to_double_bounded(1)[of _ 6]) simp_all

lemma difference_42_37_42_38:
  "fl (5963047381615247 / 140737488355328 - 5964454756498801 / 140737488355328)
     = - (703687441777 / 70368744177664)"
  by code_simp

lemma difference_42_37_42_39:
  "fl (5963047381615247 / 140737488355328 - 2982931065691177 / 70368744177664)
     = - (2814749767107 / 140737488355328)"
  by code_simp

lemma difference_exceeds_0_01:
  "(1::rat) / 100 < fl (1 / 100) \<and> fl (1 / 100) < 703687441777 / 70368744177664"
  unfolding fl_0_01 by simp

text \<open>
  C3. The tolerant mode computes \<open>|computed - expected| < 0.01\<close> in double arithmetic
  (lemma \<open>tolerant_compare\<close>). At \<open>compare(42.37, 42.38, strict=false)\<close> the double
  difference is \<open>0.010000000000005116\<close>, not below the double \<open>0.01\<close>, and the code
  returns false, where the specification and the test suite expect true.
\<close>

theorem tolerant_compare_42_37_42_38:
  "compareResults (to_double (4237 / 100)) (to_double (4238 / 100)) False = False"
  unfolding literal_42_37 literal_42_38 tolerant_compare difference_42_37_42_38 fl_0_01
  by simp

lemma tolerant_compare_42_37_42_39:
  "compareResults (to_double (4237 / 100)) (to_double (4239 / 100)) False = False"
  unfolding literal_42_37 literal_42_39 tolerant_compare difference_42_37_42_39 fl_0_01
  by simp

text \<open>1 and \<open>1 + 2\<^sup>-\<^sup>5\<^sup>2\<close> are neighbouring doubles.\<close>

lemma one_plus_epsilon: "fl (1 + 1 / 2 ^ 52) = 1 + 1 / 2 ^ 52"
proof (rule fl_exact[where m = "2 ^ 52 + 1" and e = "- 52"])
  show "(1::rat) + 1 / 2 ^ 52 = of_int (2 ^ 52 + 1) * 2 powi (- 52)"
    using pow2_neg[of 52] by simp
qed simp_all

lemma no_double_in_gap:
  assumes "1 < x" "x < 1 + 1 / 2 ^ 52"
  shows "fl x \<noteq> x"
proof
  assume f: "fl x = x"
  have x0: "0 < x" using assms(1) by simp
  have "expo x = 0" using assms by (intro expo_unique) simp_all
  then have u: "ulp_exp x = - 52" using x0 by (simp add: ulp_exp_def)
  have p: "(2::rat) powi (- 52) = 1 / 2 ^ 52" using pow2_neg[of 52] by simp
  define N where "N = rne (x / 2 powi (- 52))"
  have "x = of_int N * (1 / 2 ^ 52)" using f x0 by (simp add: fl_def u N_def p)
  then have x: "x * 2 ^ 52 = of_int N" by simp
  have "of_int (2 ^ 52) < x * 2 ^ 52" "x * 2 ^ 52 < of_int (2 ^ 52 + 1)"
    using assms by (simp_all add: field_simps)
  then have "(of_int (2 ^ 52) :: rat) < of_int N" "(of_int N :: rat) < of_int (2 ^ 52 + 1)"
    unfolding x by simp_all
  then have "2 ^ 52 < N" "N < 2 ^ 52 + 1" by (simp_all only: of_int_less_iff)
  then show False by linarith
qed

lemma strict_compare_finite:
  "compareResults (Num a) (Num b) True \<longleftrightarrow> \<bar>fl (a - b)\<bar> < 10 * (1 / 2 ^ 52)"
proof -
  have t: "(0::rat) \<le> 10 / 2 ^ 52" "(10::rat) / 2 ^ 52 < 2 ^ 1024" by simp_all
  show ?thesis
    unfolding compareResults_def epsilon_times_10 using abs_sub_lt[OF t] by simp
qed

text \<open>
  C6. The strict mode returns true iff the double difference \<open>|computed - expected|\<close> is
  below \<open>EPSILON * 10\<close>, where \<open>EPSILON = 2\<^sup>-\<^sup>5\<^sup>2\<close> is the machine epsilon of the
  doubles: \<open>1 + EPSILON\<close> is a double and no double lies strictly between 1 and it. In
  particular \<open>compare(42.37, 42.37, strict=true)\<close> is true.
\<close>

theorem strict_compare:
  "(compareResults (Num a) (Num b) True \<longleftrightarrow> \<bar>fl (a - b)\<bar> < 10 * (1 / 2 ^ 52)) \<and>
   Number_EPSILON = Num (1 / 2 ^ 52) \<and>
   fl 1 = 1 \<and> fl (1 + 1 / 2 ^ 52) = 1 + 1 / 2 ^ 52 \<and>
   (\<forall>x. 1 < x \<and> x < 1 + 1 / 2 ^ 52 \<longrightarrow> fl x \<noteq> x) \<and>
   compareResults (to_double (4237 / 100)) (to_double (4237 / 100)) True"
proof -
  have "compareResults (to_double (4237 / 100)) (to_double (4237 / 100)) True"
    unfolding literal_42_37 strict_compare_finite by (simp add: fl_def)
  then show ?thesis
    using strict_compare_finite one_plus_epsilon no_double_in_gap fl_one
    by (simp add: Number_EPSILON_def)
qed

theorem strict_compare_witness:
  "(1::rat) < 1 + 1 / 2 ^ 53 \<and> (1::rat) + 1 / 2 ^ 53 < 1 + 1 / 2 ^ 52 \<and>
   fl (1 + 1 / 2 ^ 53) \<noteq> 1 + 1 / 2 ^ 53"
proof -
  have g: "\<forall>x::rat. 1 < x \<and> x < 1 + 1 / 2 ^ 52 \<longrightarrow> fl x \<noteq> x"
    using strict_compare[of 0 0] by blast
  have h: "(1::rat) < 1 + 1 / 2 ^ 53" "(1::rat) + 1 / 2 ^ 53 < 1 + 1 / 2 ^ 52"
    by simp_all
  from g h have "fl (1 + 1 / 2 ^ 53) \<noteq> 1 + 1 / 2 ^ 53" by blast
  with h show ?thesis by blast
qed

section \<open>The seed hash check\<close>

lemma sha256_lowercase: "toLowerCase (sha256 H seed) = sha256 H seed"
  by (simp add: sha256_def toLowerCase_digest_hex)

lemma length_sha256: "length (sha256 H seed) = 64"
  by (simp add: sha256_def length_digest_hex)

lemma verifyServerSeedHash_iff:
  "verifyServerSeedHash H seed h \<longleftrightarrow> toLowerCase h = sha256 H seed"
  by (auto simp: verifyServerSeedHash_def Let_def sha256_lowercase)

lemma verifyServerSeedHash_length:
  "verifyServerSeedHash H seed h \<Longrightarrow> length h = 64"
proof -
  assume "verifyServerSeedHash H seed h"
  then have "toLowerCase h = sha256 H seed" by (simp only: verifyServerSeedHash_iff)
  then have "length (toLowerCase h) = 64" by (simp add: length_sha256)
  then show ?thesis by (simp add: toLowerCase_def)
qed

text \<open>Against a hexadecimal digit, lower-casing a character compares it up to case.\<close>

lemma of_char_hex_char:
  "d < 16 \<Longrightarrow> (of_char (hex_char d) :: nat) < 65 \<or> 90 < (of_char (hex_char d) :: nat)"
  using nibble_cases[of d] by (auto simp: hex_char_def)

lemma lower_char_eq_iff:
  assumes "(of_char d :: nat) < 65 \<or> 90 < (of_char d :: nat)"
  shows "lower_char a = d \<longleftrightarrow> same_char_up_to_case a d"
proof (cases "65 \<le> (of_char a :: nat) \<and> (of_char a :: nat) \<le> 90")
  case True
  then have l: "lower_char a = char_of ((of_char a :: nat) + 32)"
    by (simp add: lower_char_def Let_def)
  have "a \<noteq> d" using True assms by auto
  moreover have "\<not> capital_of d a" using assms by (auto simp: capital_of_def)
  moreover have "char_of ((of_char a :: nat) + 32) = d \<longleftrightarrow> (of_char d :: nat) = of_char a + 32"
  proof
    assume "char_of ((of_char a :: nat) + 32) = d"
    then have "(of_char d :: nat) = of_char (char_of ((of_char a :: nat) + 32))" by simp
    then show "(of_char d :: nat) = of_char a + 32" using True by (simp add: of_char_of)
  next
    assume "(of_char d :: nat) = of_char a + 32"
    then have "char_of ((of_char a :: nat) + 32) = char_of (of_char d :: nat)" by simp
    then show "char_of ((of_char a :: nat) + 32) = d" by simp
  qed
  ultimately show ?thesis using True by (simp add: l same_char_up_to_case_def) (simp add: capital_of_def)
next
  case False
  then have l: "lower_char a = a" by (auto simp: lower_char_def Let_def)
  have "\<not> capital_of a d" "\<not> capital_of d a"
    using False assms by (auto simp: capital_of_def)
  then show ?thesis by (simp add: l same_char_up_to_case_def)
qed

lemma map_eq_iff_list_all2: "map f xs = ys \<longleftrightarrow> list_all2 (\<lambda>x y. f x = y) xs ys"
  by (induction xs arbitrary: ys) (auto simp: list_all2_Cons1)

lemma digest_hex_chars:
  "d \<in> set (digest_hex w) \<Longrightarrow> (of_char d :: nat) < 65 \<or> 90 < (of_char d :: nat)"
proof -
  assume "d \<in> set (digest_hex w)"
  then obtain i where "d = hex_char (unat w div 16 ^ (63 - i) mod 16)"
    by (auto simp: digest_hex_def)
  moreover have "unat w div 16 ^ (63 - i) mod 16 < 16" by simp
  ultimately show ?thesis using of_char_hex_char by blast
qed

lemma toLowerCase_eq_digest_iff:
  "toLowerCase h = digest_hex w \<longleftrightarrow> equal_up_to_case h (digest_hex w)"
proof -
  have "list_all2 (\<lambda>a d. lower_char a = d) h (digest_hex w)
          \<longleftrightarrow> list_all2 same_char_up_to_case h (digest_hex w)"
  proof
    assume "list_all2 (\<lambda>a d. lower_char a = d) h (digest_hex w)"
    then show "list_all2 same_char_up_to_case h (digest_hex w)"
      by (rule list.rel_mono_strong) (simp add: lower_char_eq_iff[OF digest_hex_chars])
  next
    assume "list_all2 same_char_up_to_case h (digest_hex w)"
    then show "list_all2 (\<lambda>a d. lower_char a = d) h (digest_hex w)"
      by (rule list.rel_mono_strong) (simp add: lower_char_eq_iff[OF digest_hex_chars])
  qed
  then show ?thesis
    by (simp add: toLowerCase_def equal_up_to_case_def map_eq_iff_list_all2)
qed

lemma lower_upper_char:
  assumes "(of_char c :: nat) < 65 \<or> 90 < (of_char c :: nat)"
  shows "lower_char (upper_char c) = c"
proof (cases "97 \<le> (of_char c :: nat) \<and> (of_char c :: nat) \<le> 122")
  case True
  define n where "n = (of_char c :: nat)"
  have u: "upper_char c = char_of (n - 32)" using True by (simp add: upper_char_def n_def)
  have n: "97 \<le> n" "n \<le> 122" using True by (simp_all only: n_def)
  have "n - 32 < 256" using n by arith
  then have o: "(of_char (char_of (n - 32)) :: nat) = n - 32"
    by (simp add: of_char_of)
  have "65 \<le> n - 32 \<and> n - 32 \<le> 90" using n by arith
  then have "lower_char (char_of (n - 32)) = char_of (n - 32 + 32)"
    unfolding lower_char_def o Let_def by simp
  also have "n - 32 + 32 = n" using n by arith
  finally show ?thesis unfolding u by (simp add: n_def)
next
  case False
  then have "upper_char c = c" by (auto simp: upper_char_def)
  then show ?thesis using assms by (auto simp: lower_char_def)
qed

lemma lower_upper_hex_char: "d < 16 \<Longrightarrow> lower_char (upper_char (hex_char d)) = hex_char d"
  by (rule lower_upper_char) (rule of_char_hex_char)

lemma toLowerCase_toUpperCase_digest_hex:
  "toLowerCase (toUpperCase (digest_hex w)) = digest_hex w"
  by (simp add: toLowerCase_def toUpperCase_def digest_hex_def lower_upper_hex_char)

text \<open>
  C7. For every seed: the hash of the seed verifies against the seed, and so does its
  upper-case spelling; a claimed hash verifies iff it equals the hexadecimal digest of the
  seed up to letter case, character by character; and \<open>wrong\<close> never verifies.
\<close>

theorem seed_hash_integrity:
  "verifyServerSeedHash H seed (sha256 H seed) \<and>
   verifyServerSeedHash H seed (toUpperCase (sha256 H seed)) \<and>
   (verifyServerSeedHash H seed h \<longleftrightarrow> equal_up_to_case h (sha256 H seed)) \<and>
   verifyServerSeedHash H seed ''wrong'' = False"
proof -
  have w: "verifyServerSeedHash H seed ''wrong'' = False"
    using verifyServerSeedHash_length[of H seed "''wrong''"] by auto
  have u: "verifyServerSeedHash H seed (toUpperCase (sha256 H seed))"
    unfolding verifyServerSeedHash_iff
    by (simp add: sha256_def toLowerCase_toUpperCase_digest_hex)
  have e: "verifyServerSeedHash H seed h \<longleftrightarrow> equal_up_to_case h (sha256 H seed)"
    unfolding verifyServerSeedHash_iff sha256_def by (rule toLowerCase_eq_digest_iff)
  have s: "verifyServerSeedHash H seed (sha256 H seed)"
    by (simp add: verifyServerSeedHash_iff sha256_lowercase)
  show ?thesis using s u e w by blast
qed

text \<open>The digest of the vector \<open>test\<close>, and its upper-case spelling accepted as the claimed hash.\<close>

lemma upt_0_64: "[0..<64] = 0 # 1 # [2..<64]"
  by (simp add: upt_conv_Cons)

lemma sha256_vectors_test:
  "sha256 sha256_vectors ''test''
     = ''9f86d081884c7d659a2feaa0c55ad015a3bf4f1b2b0b822cd15d6c15b0f00a08''"
proof -
  have "unat (sha256_vectors ''test'')
          = 0x9f86d081884c7d659a2feaa0c55ad015a3bf4f1b2b0b822cd15d6c15b0f00a08"
    by (simp add: sha256_vectors_def)
  then show ?thesis
    unfolding sha256_def digest_hex_def upt_0_64 by (simp add: hex_char_def)
qed

lemma upper_case_claim_verifies:
  "verifyServerSeedHash sha256_vectors ''test''
     ''9F86D081884C7D659A2FEAA0C55AD015A3BF4F1B2B0B822CD15D6C15B0F00A08''"
  unfolding verifyServerSeedHash_iff sha256_vectors_test
  by code_simp

section \<open>Orchestration and verdict\<close>

lemma verifyGame_flags:
  "verifyGame H g s h c n m =
     (if g = ''dice''
      then Inr \<lparr> result = verifyDice H s c n,
                 hashVerified = (truthy h \<and> verifyServerSeedHash H s (the h)),
                 hashMismatch = (truthy h \<and> \<not> verifyServerSeedHash H s (the h)) \<rparr>
      else if g = ''crash''
      then Inr \<lparr> result = verifyCrash H s c n m,
                 hashVerified = (truthy h \<and> verifyServerSeedHash H s (the h)),
                 hashMismatch = (truthy h \<and> \<not> verifyServerSeedHash H s (the h)) \<rparr>
      else Inl (''Unknown game type: '' @ g))"
  by (simp add: verifyGame_def Let_def)

lemma validateRequest_game:
  "validateRequest body = Valid \<Longrightarrow> game body = ''dice'' \<or> game body = ''crash''"
  by (auto simp: validateRequest_def split: if_splits)

text \<open>
  C4, as amended. \<open>verifyGame\<close> throws only for a game other than dice and crash. When
  a non-empty claimed hash is supplied, \<open>hashVerified\<close> is the seed hash check and
  \<open>hashMismatch\<close> its negation; when the claimed hash is omitted or is the empty string,
  both flags are false. For a valid request the endpoint answers with verdict FAIL iff
  \<open>hashMismatch\<close> is true or an expected result was supplied and the comparison returns
  false, and with PASS otherwise.
\<close>

theorem verify_flags_and_verdict:
  "(case verifyGame H g s h c n m of
      Inl e \<Rightarrow> g \<noteq> ''dice'' \<and> g \<noteq> ''crash''
    | Inr out \<Rightarrow>
        (g = ''dice'' \<or> g = ''crash'') \<and>
        (case h of
           None \<Rightarrow> \<not> hashVerified out \<and> \<not> hashMismatch out
         | Some t \<Rightarrow>
             if t = [] then \<not> hashVerified out \<and> \<not> hashMismatch out
             else hashVerified out = verifyServerSeedHash H s t \<and>
                  hashMismatch out = (\<not> verifyServerSeedHash H s t))) \<and>
   (validateRequest body = Valid \<longrightarrow>
      (\<exists>out r.
         verifyGame H (game body) (server_seed body) (server_seed_hash body)
           (client_seed body) (nonce body) m = Inr out \<and>
         postVerify H m body = Status200 r \<and>
         (verdict r = FAIL \<longleftrightarrow>
            hashMismatch out \<or>
            (\<exists>e. expected_result body = Some e \<and>
               \<not> compareResults (computedResult (result out)) e (expect_strict body = Some True))) \<and>
         (verdict r = PASS \<longleftrightarrow>
            \<not> (hashMismatch out \<or>
               (\<exists>e. expected_result body = Some e \<and>
                  \<not> compareResults (computedResult (result out)) e (expect_strict body = Some True))))))"
proof (intro conjI impI)
  show "case verifyGame H g s h c n m of
      Inl e \<Rightarrow> g \<noteq> ''dice'' \<and> g \<noteq> ''crash''
    | Inr out \<Rightarrow>
        (g = ''dice'' \<or> g = ''crash'') \<and>
        (case h of
           None \<Rightarrow> \<not> hashVerified out \<and> \<not> hashMismatch out
         | Some t \<Rightarrow>
             if t = [] then \<not> hashVerified out \<and> \<not> hashMismatch out
             else hashVerified out = verifyServerSeedHash H s t \<and>
                  hashMismatch out = (\<not> verifyServerSeedHash H s t))"
    by (simp add: verifyGame_flags truthy_def split: option.splits)
next
  assume v: "validateRequest body = Valid"
  have st: "(case expect_strict body of None \<Rightarrow> False | Some b \<Rightarrow> b) = (expect_strict body = Some True)"
    by (simp split: option.splits)
  from validateRequest_game[OF v] obtain out where
    out: "verifyGame H (game body) (server_seed body) (server_seed_hash body)
            (client_seed body) (nonce body) m = Inr out"
    by (auto simp: verifyGame_flags)
  show "\<exists>out r.
         verifyGame H (game body) (server_seed body) (server_seed_hash body)
           (client_seed body) (nonce body) m = Inr out \<and>
         postVerify H m body = Status200 r \<and>
         (verdict r = FAIL \<longleftrightarrow>
            hashMismatch out \<or>
            (\<exists>e. expected_result body = Some e \<and>
               \<not> compareResults (computedResult (result out)) e (expect_strict body = Some True))) \<and>
         (verdict r = PASS \<longleftrightarrow>
            \<not> (hashMismatch out \<or>
               (\<exists>e. expected_result body = Some e \<and>
                  \<not> compareResults (computedResult (result out)) e (expect_strict body = Some True))))"
    by (cases "expected_result body")
       (simp_all add: postVerify_def v out Let_def st)
qed

text \<open>
  C4 as the specification states it fails when the claimed hash is supplied as the empty
  string: the seed hash check of the empty string is false, yet \<open>hashMismatch\<close> is
  false, not its negation.
\<close>

theorem verify_flags_counterexample:
  "map_sum id hashMismatch
     (verifyGame sha256_vectors ''dice'' ''test'' (Some []) ''test'' (Num 1) (Num 10000)) = Inr False \<and>
   verifyServerSeedHash sha256_vectors ''test'' [] = False"
  using verifyServerSeedHash_length[of sha256_vectors "''test''" "[]"]
  by (auto simp: verifyGame_flags truthy_def)

theorem verify_flags_and_verdict_witness:
  "validateRequest
     \<lparr> game = ''dice'', server_seed = ''test'', server_seed_hash = Some ''wrong-hash-value'',
       client_seed = ''test'', nonce = Num 1, server_provided_hash = None,
       expected_result = None, expect_strict = None \<rparr> = Valid \<and>
   (\<exists>r. postVerify sha256_vectors (Num 10000)
          \<lparr> game = ''dice'', server_seed = ''test'', server_seed_hash = Some ''wrong-hash-value'',
            client_seed = ''test'', nonce = Num 1, server_provided_hash = None,
            expected_result = None, expect_strict = None \<rparr> = Status200 r \<and>
        verdict r = FAIL)"
proof -
  define body where "body =
     \<lparr> game = ''dice'', server_seed = ''test'', server_seed_hash = Some ''wrong-hash-value'',
       client_seed = ''test'', nonce = Num 1, server_provided_hash = None,
       expected_result = (None :: number option), expect_strict = (None :: bool option) \<rparr>"
  have v: "validateRequest body = Valid"
    by (simp add: validateRequest_def body_def)
  have w: "\<not> verifyServerSeedHash sha256_vectors ''test'' ''wrong-hash-value''"
    using verifyServerSeedHash_length[of sha256_vectors "''test''" "''wrong-hash-value''"] by auto
  note t = verify_flags_and_verdict[where H = sha256_vectors and g = "''dice''" and s = "''test''"
      and h = "Some ''wrong-hash-value''" and c = "''test''" and n = "Num 1" and m = "Num 10000"
      and body = body]
  from t v obtain out r where
    o: "verifyGame sha256_vectors (game body) (server_seed body) (server_seed_hash body)
          (client_seed body) (nonce body) (Num 10000) = Inr out"
    and p: "postVerify sha256_vectors (Num 10000) body = Status200 r"
    and f: "verdict r = FAIL \<longleftrightarrow>
            hashMismatch out \<or>
            (\<exists>e. expected_result body = Some e \<and>
               \<not> compareResults (computedResult (result out)) e (expect_strict body = Some True))"
    by blast
  have o': "verifyGame sha256_vectors ''dice'' ''test'' (Some ''wrong-hash-value'') ''test'' (Num 1)
              (Num 10000) = Inr out"
    using o by (simp add: body_def)
  have "hashMismatch out" using t w unfolding o' by simp
  then have "verdict r = FAIL" using f by simp
  then show ?thesis using v p unfolding body_def by blast
qed

text \<open>
  C10. A claimed hash that is the empty string is treated exactly like an omitted one.
  For dice and for crash \<open>verifyGame\<close> returns an outcome, the same as without a claimed
  hash, with \<open>hashVerified\<close> and \<open>hashMismatch\<close> both false: the empty string is not
  compared against the computed hash. For a valid request the endpoint answers with status
  200 and the same response as without a claimed hash, and its verdict is FAIL only when
  an expected result was supplied and the comparison returns false.
\<close>

theorem empty_claimed_hash_as_omitted:
  "(g = ''dice'' \<or> g = ''crash'' \<longrightarrow>
      (\<exists>out. verifyGame H g s (Some []) c n m = Inr out \<and>
             verifyGame H g s None c n m = Inr out \<and>
             hashVerified out = False \<and> hashMismatch out = False)) \<and>
   (validateRequest body = Valid \<longrightarrow>
      (\<exists>out r.
         verifyGame H (game body) (server_seed body) (Some []) (client_seed body)
           (nonce body) m = Inr out \<and>
         hashVerified out = False \<and> hashMismatch out = False \<and>
         postVerify H m (body\<lparr>server_seed_hash := Some []\<rparr>) = Status200 r \<and>
         postVerify H m (body\<lparr>server_seed_hash := None\<rparr>) = Status200 r \<and>
         computed_result r = computedResult (result out) \<and>
         (verdict r = FAIL \<longleftrightarrow>
            (\<exists>e. expected_result body = Some e \<and>
               \<not> compareResults (computedResult (result out)) e (expect_strict body = Some True)))))"
proof (intro conjI impI)
  assume "g = ''dice'' \<or> g = ''crash''"
  then show "\<exists>out. verifyGame H g s (Some []) c n m = Inr out \<and>
             verifyGame H g s None c n m = Inr out \<and>
             hashVerified out = False \<and> hashMismatch out = False"
    by (auto simp: verifyGame_flags truthy_def)
next
  assume v: "validateRequest body = Valid"
  have "validateRequest (body\<lparr>server_seed_hash := x\<rparr>) = validateRequest body" for x
    by (simp add: validateRequest_def)
  then have v1: "validateRequest (body\<lparr>server_seed_hash := Some []\<rparr>) = Valid"
    and v2: "validateRequest (body\<lparr>server_seed_hash := None\<rparr>) = Valid"
    using v by simp_all
  have st: "(case expect_strict body of None \<Rightarrow> False | Some b \<Rightarrow> b) = (expect_strict body = Some True)"
    by (simp split: option.splits)
  from validateRequest_game[OF v] obtain out where
    out: "verifyGame H (game body) (server_seed body) (Some []) (client_seed body)
            (nonce body) m = Inr out"
      "verifyGame H (game body) (server_seed body) None (client_seed body)
            (nonce body) m = Inr out"
      "hashVerified out = False" "hashMismatch out = False"
    by (auto simp: verifyGame_flags truthy_def)
  show "\<exists>out r.
         verifyGame H (game body) (server_seed body) (Some []) (client_seed body)
           (nonce body) m = Inr out \<and>
         hashVerified out = False \<and> hashMismatch out = False \<and>
         postVerify H m (body\<lparr>server_seed_hash := Some []\<rparr>) = Status200 r \<and>
         postVerify H m (body\<lparr>server_seed_hash := None\<rparr>) = Status200 r \<and>
         computed_result r = computedResult (result out) \<and>
         (verdict r = FAIL \<longleftrightarrow>
            (\<exists>e. expected_result body = Some e \<and>
               \<not> compareResults (computedResult (result out)) e (expect_strict body = Some True)))"
    by (cases "expected_result body")
       (simp_all add: postVerify_def v1 v2 out Let_def st truthy_def)
qed

theorem empty_claimed_hash_as_omitted_witness:
  "(''dice'' = ''dice'' \<or> ''dice'' = ''crash'') \<and>
   validateRequest
     \<lparr> game = ''dice'', server_seed = ''test'', server_seed_hash = Some [],
       client_seed = ''test'', nonce = Num 1, server_provided_hash = None,
       expected_result = None, expect_strict = None \<rparr> = Valid \<and>
   (\<exists>out. verifyGame sha256_vectors ''dice'' ''test'' (Some []) ''test'' (Num 1) (Num 10000)
            = Inr out \<and>
          hashVerified out = False \<and> hashMismatch out = False) \<and>
   (\<exists>r. postVerify sha256_vectors (Num 10000)
          \<lparr> game = ''dice'', server_seed = ''test'', server_seed_hash = Some [],
            client_seed = ''test'', nonce = Num 1, server_provided_hash = None,
            expected_result = None, expect_strict = None \<rparr> = Status200 r \<and>
        verdict r = PASS)"
proof -
  define body where "body =
     \<lparr> game = ''dice'', server_seed = ''test'', server_seed_hash = Some [],
       client_seed = ''test'', nonce = Num 1, server_provided_hash = None,
       expected_result = (None :: number option), expect_strict = (None :: bool option) \<rparr>"
  have b: "body\<lparr>server_seed_hash := Some []\<rparr> = body" by (simp add: body_def)
  have v: "validateRequest body = Valid"
    by (simp add: validateRequest_def body_def)
  have g: "''dice'' = ''dice'' \<or> ''dice'' = ''crash''" by simp
  note t = empty_claimed_hash_as_omitted[where H = sha256_vectors and g = "''dice''"
      and s = "''test''" and c = "''test''" and n = "Num 1" and m = "Num 10000"
      and body = body]
  from t g obtain out where
    o: "verifyGame sha256_vectors ''dice'' ''test'' (Some []) ''test'' (Num 1) (Num 10000) = Inr out"
       "hashVerified out = False" "hashMismatch out = False"
    by blast
  from conjunct2[OF t, THEN mp, OF v] obtain out' r where
    p: "postVerify sha256_vectors (Num 10000) (body\<lparr>server_seed_hash := Some []\<rparr>) = Status200 r"
    and f: "verdict r = FAIL \<longleftrightarrow> (\<exists>e. expected_result body = Some e \<and>
               \<not> compareResults (computedResult (result (out' :: GameOutcome))) e
                    (expect_strict body = Some True))"
    by blast
  have "verdict r \<noteq> FAIL" using f by (simp add: body_def)
  then have "verdict r = PASS" by (cases "verdict r") simp_all
  then show ?thesis using g v o p unfolding b unfolding body_def by blast
qed

section \<open>The vectors of the test suite\<close>

text \<open>
  Dice with server seed \<open>seed123\<close>, client seed \<open>client456\<close> and nonce 1: the digest
  starts with \<open>fc585ffe\<close>, and \<open>0xfc585ffe mod 10000 = 174\<close> gives 1.74.
\<close>

lemma dice_vector:
  "computedResult (verifyDice sha256_vectors ''seed123'' ''client456'' (Num 1)) = to_double (174 / 100)"
proof -
  have i: "computeHashInput ''seed123'' ''client456'' (Num 1) = ''seed123:client456:1''"
    unfolding computeHashInput_def number_to_string_1 by simp
  have "unat (sha256_vectors ''seed123:client456:1'') div 16 ^ 56 mod 10000 = 174"
    by (simp add: sha256_vectors_def)
  then have "computedResult (verifyDice sha256_vectors ''seed123'' ''client456'' (Num 1))
               = Num (fl (of_nat 174 / 100))"
    by (simp only: verifyDice_result i VerificationResult.simps)
  moreover have "to_double (of_nat 174 / 100) = Num (fl (of_nat 174 / 100))"
    by (rule two_decimals(1)) simp
  ultimately show ?thesis by simp
qed

text \<open>
  Crash with both seeds \<open>test\<close>, nonce 1 and the default cap 10000: the digest starts
  with \<open>a3b8ef9da9079\<close>, and the multiplier is 2.77.
\<close>

lemma crash_multiplier_vector: "crash_multiplier 0xa3b8ef9da9079 = fl (277 / 100)"
  unfolding crash_multiplier_def of_nat_numeral by code_simp

lemma crash_vector:
  "computedResult (verifyCrash sha256_vectors ''test'' ''test'' (Num 1) (Num 10000)) = to_double (277 / 100)"
proof -
  have i: "computeHashInput ''test'' ''test'' (Num 1) = ''test:test:1''"
    unfolding computeHashInput_def number_to_string_1 by simp
  have x: "unat (sha256_vectors ''test:test:1'') div 16 ^ 51 = 0xa3b8ef9da9079"
    by (simp add: sha256_vectors_def)
  have c: "js_div (Math_round (js_mul
             (Math_min (Num (crash_multiplier 0xa3b8ef9da9079)) (Num (of_int 10000))) (Num 100))) (Num 100)
             = Num (min (crash_multiplier 0xa3b8ef9da9079) (of_int 10000))"
    by (rule crash_capped) simp_all
  have "fl (277 / 100) \<le> fl (10000)" by (rule fl_mono) simp_all
  also have "\<dots> = 10000" using fl_of_int[of 10000] by simp
  finally have le: "fl (277 / 100) \<le> 10000" .
  have "computedResult (verifyCrash sha256_vectors ''test'' ''test'' (Num 1) (Num 10000))
          = Num (fl (277 / 100))"
    using c le unfolding verifyCrash_result i x
    by (simp add: crash_multiplier_vector min_def)
  moreover have "to_double (of_nat 277 / 100) = Num (fl (of_nat 277 / 100))"
    by (rule two_decimals(1)) simp
  ultimately show ?thesis by simp
qed

text \<open>
  The cap must be an integer (or at least a double of two decimals) for the result to stay
  below it: with the cap \<open>1.006\<close> the same round is capped to 1.006 and then rounded up
  to 1.01.
\<close>

lemma fl_1_006: "fl (1006 / 1000) = 4530621225134719 / 4503599627370496"
  by code_simp

lemma fl_2_77: "fl (277 / 100) = 6237485483908137 / 2251799813685248"
  by code_simp

lemma fl_100_6: "fl (4530621225134719 / 4503599627370496 * 100) = 3539547832136499 / 35184372088832"
  by code_simp

lemma crash_cap_two_decimals_needed:
  "computedResult (verifyCrash sha256_vectors ''test'' ''test'' (Num 1) (to_double (1006 / 1000)))
     = to_double (101 / 100) \<and>
   js_lt (to_double (1006 / 1000)) (to_double (101 / 100))"
proof -
  have i: "computeHashInput ''test'' ''test'' (Num 1) = ''test:test:1''"
    unfolding computeHashInput_def number_to_string_1 by simp
  have x: "unat (sha256_vectors ''test:test:1'') div 16 ^ 51 = 0xa3b8ef9da9079"
    by (simp add: sha256_vectors_def)
  have cap: "to_double (1006 / 1000) = Num (4530621225134719 / 4503599627370496)"
    unfolding fl_1_006[symmetric] by (rule to_double_bounded(1)[of _ 1]) simp_all
  have m: "Math_min (Num (crash_multiplier 0xa3b8ef9da9079)) (Num (4530621225134719 / 4503599627370496))
             = Num (4530621225134719 / 4503599627370496)"
    unfolding crash_multiplier_vector fl_2_77 by simp
  have p: "js_mul (Num (4530621225134719 / 4503599627370496)) (Num 100)
             = Num (3539547832136499 / 35184372088832)"
    unfolding js_mul.simps fl_100_6[symmetric] by (rule to_double_bounded(1)[of _ 7]) simp_all
  have f: "\<lfloor>(3539547832136499::rat) / 35184372088832 + 1 / 2\<rfloor> = 101"
    by (rule floor_unique) simp_all
  have r: "Math_round (Num (3539547832136499 / 35184372088832)) = Num 101"
    using f by simp
  have 1: "computedResult (verifyCrash sha256_vectors ''test'' ''test'' (Num 1) (to_double (1006 / 1000)))
             = to_double (101 / 100)"
    unfolding verifyCrash_result i x cap by (simp only: VerificationResult.simps m p r js_div.simps) simp
  have "to_double (of_nat 101 / 100) = Num (fl (of_nat 101 / 100))"
    by (rule two_decimals(1)) simp
  moreover have "fl (101 / 100) = 4548635623644201 / 4503599627370496" by code_simp
  ultimately have 2: "to_double (101 / 100) = Num (4548635623644201 / 4503599627370496)" by simp
  show ?thesis unfolding 1 unfolding cap 2 by simp
qed

text \<open>
  C2 as the specification states it fails for a cap of more than two decimals. With both
  seeds \<open>test\<close>, nonce 1 and the cap \<open>1.045\<close> (a double just below 1.045) the multiplier
  2.77 is capped to the cap, whose rounding to two decimals is 1.04; the code multiplies
  by 100, which gives the double 104.5, rounds that to 105 and returns 1.05.
\<close>

lemma fl_1_045: "fl (1045 / 1000) = 588282701325271 / 562949953421312"
  by code_simp

lemma fl_104_5: "fl (588282701325271 / 562949953421312 * 100) = 209 / 2"
  by code_simp

lemma fl_1_04: "fl (26 / 25) = 1170935903116329 / 1125899906842624"
  by code_simp

lemma fl_1_05: "fl (21 / 20) = 4728779608739021 / 4503599627370496"
  by code_simp

theorem crash_rounding_counterexample:
  "computeHashInput ''test'' ''test'' (Num 1) = ''test:test:1'' \<and>
   parseInt16 (take 13 (sha256 sha256_vectors ''test:test:1'')) = Num 0xa3b8ef9da9079 \<and>
   Math_min (Num (crash_multiplier 0xa3b8ef9da9079)) (to_double (1045 / 1000))
     = to_double (1045 / 1000) \<and>
   nearest_2dp (to_double (1045 / 1000)) = to_double (104 / 100) \<and>
   computedResult (verifyCrash sha256_vectors ''test'' ''test'' (Num 1) (to_double (1045 / 1000)))
     = to_double (105 / 100) \<and>
   to_double (105 / 100) \<noteq> to_double (104 / 100)"
proof -
  have i: "computeHashInput ''test'' ''test'' (Num 1) = ''test:test:1''"
    unfolding computeHashInput_def number_to_string_1 by simp
  have x: "unat (sha256_vectors ''test:test:1'') div 16 ^ 51 = 0xa3b8ef9da9079"
    by (simp add: sha256_vectors_def)
  have "parseInt16 (take 13 (digest_hex (sha256_vectors ''test:test:1'')))
          = Num (of_nat (unat (sha256_vectors ''test:test:1'') div 16 ^ (64 - 13)))"
    by (rule parseInt16_take_digest(1)) simp_all
  then have pi: "parseInt16 (take 13 (sha256 sha256_vectors ''test:test:1'')) = Num 0xa3b8ef9da9079"
    unfolding sha256_def using x by simp
  have cap: "to_double (1045 / 1000) = Num (588282701325271 / 562949953421312)"
    unfolding fl_1_045[symmetric] by (rule to_double_bounded(1)[of _ 1]) simp_all
  have m: "Math_min (Num (crash_multiplier 0xa3b8ef9da9079)) (Num (588282701325271 / 562949953421312))
             = Num (588282701325271 / 562949953421312)"
    unfolding crash_multiplier_vector fl_2_77 by simp
  have p: "js_mul (Num (588282701325271 / 562949953421312)) (Num 100) = Num (209 / 2)"
    unfolding js_mul.simps fl_104_5[symmetric] by (rule to_double_bounded(1)[of _ 7]) simp_all
  have f: "\<lfloor>(209::rat) / 2 + 1 / 2\<rfloor> = 105"
    by (rule floor_unique) simp_all
  have r: "Math_round (Num (209 / 2)) = Num 105"
    using f by simp
  have 1: "computedResult (verifyCrash sha256_vectors ''test'' ''test'' (Num 1) (to_double (1045 / 1000)))
             = to_double (105 / 100)"
    unfolding verifyCrash_result i x cap by (simp only: VerificationResult.simps m p r js_div.simps) simp
  have "to_double (of_nat 105 / 100) = Num (fl (of_nat 105 / 100))"
    by (rule two_decimals(1)) simp
  then have 2: "to_double (105 / 100) = Num (4728779608739021 / 4503599627370496)"
    by (simp add: fl_1_05)
  have "to_double (of_nat 104 / 100) = Num (fl (of_nat 104 / 100))"
    by (rule two_decimals(1)) simp
  then have 3: "to_double (104 / 100) = Num (1170935903116329 / 1125899906842624)"
    by (simp add: fl_1_04)
  have g: "\<lfloor>(588282701325271::rat) / 562949953421312 * 100 + 1 / 2\<rfloor> = 104"
    by (rule floor_unique) simp_all
  have n: "nearest_2dp (Num (588282701325271 / 562949953421312)) = to_double (104 / 100)"
    unfolding nearest_2dp.simps g by simp
  have d: "to_double (105 / 100) \<noteq> to_double (104 / 100)" unfolding 2 3 by simp
  show ?thesis using i pi m n 1 d unfolding cap by blast
qed

end
